theory Spec2Isabelle
  imports Main "HOL-Library.Multiset" "HOL-Library.AList" "HOL-Library.Product_Lexorder"
begin

section \<open>Task records and the priority score\<close>

text \<open>
  A \<^verbatim>\<open>datetime\<close> is a point on the naive local time line, counted in microseconds.
  The difference of two of them is a \<^verbatim>\<open>timedelta\<close>; its \<^verbatim>\<open>.days\<close> attribute is the
  difference divided by the length of a day, rounded towards minus infinity (Python
  normalises a negative timedelta to negative days and a non-negative rest).
\<close>

type_synonym datetime = int

definition timedelta_days :: "int \<Rightarrow> int" where
  "timedelta_days delta = delta div 86400000000"

text \<open>
  The class \<^verbatim>\<open>Task\<close>. The urgency is a Python \<^verbatim>\<open>int\<close>, so the score computed from it
  is an unbounded integer too (the constructor's \<^verbatim>\<open>0.0\<close> is the integer value 0).
\<close>

record task =
  task_id :: int
  title :: string
  description :: string
  deadline :: "datetime option"
  urgency :: int
  dependencies :: "int list"
  completed :: bool
  created_at :: datetime
  priority_score :: int

text \<open>
  \<^verbatim>\<open>Task.__init__\<close>: \<^verbatim>\<open>dependencies or []\<close> turns an absent list into the empty one;
  \<^verbatim>\<open>created_at\<close> is the clock reading \<open>now\<close> at construction.
\<close>

definition new_task ::
  "datetime \<Rightarrow> int \<Rightarrow> string \<Rightarrow> string \<Rightarrow> datetime option \<Rightarrow> int \<Rightarrow> int list option \<Rightarrow> task" where
  "new_task now tid ttl descr dl urg deps =
     \<lparr>task_id = tid, title = ttl, description = descr, deadline = dl, urgency = urg,
      dependencies = (case deps of None \<Rightarrow> [] | Some ds \<Rightarrow> ds),
      completed = False, created_at = now, priority_score = 0\<rparr>"

text \<open>
  \<^verbatim>\<open>Task.calculate_priority_score\<close>. The clock \<^verbatim>\<open>datetime.now()\<close> is the parameter
  \<open>now\<close>; the two readings inside the method, and the readings of all the calls made by
  one operation of the manager, are taken to be the same instant. The method returns the
  score and stores it in the object: the model returns the score together with the updated
  task.
\<close>

definition calculate_priority_score :: "datetime \<Rightarrow> task \<Rightarrow> int \<times> task" where
  "calculate_priority_score now t =
     (let base_score = urgency t * 10;
          deadline_score =
            (case deadline t of
               None \<Rightarrow> 0
             | Some dl \<Rightarrow>
                 (let days_until_deadline = timedelta_days (dl - now) in
                  if days_until_deadline < 0 then 200
                  else if days_until_deadline = 0 then 100
                  else if days_until_deadline \<le> 3 then 80 - days_until_deadline * 20
                  else if days_until_deadline \<le> 7 then 40 - days_until_deadline * 5
                  else max 0 (20 - days_until_deadline)));
          age_days = timedelta_days (now - created_at t);
          age_score = min 20 (age_days * 2);
          score = base_score + deadline_score + age_score
      in (score, t\<lparr>priority_score := score\<rparr>))"

definition rescore :: "datetime \<Rightarrow> task \<Rightarrow> task" where
  "rescore now t = snd (calculate_priority_score now t)"

subsection \<open>The score formula as the specification words it\<close>

definition spec_base :: "task \<Rightarrow> int" where
  "spec_base t = urgency t * 10"

definition spec_deadline_term :: "datetime \<Rightarrow> task \<Rightarrow> int" where
  "spec_deadline_term now t =
     (case deadline t of
        None \<Rightarrow> 0
      | Some dl \<Rightarrow>
          (let days = (dl - now) div 86400000000 in
           if days < 0 then 200
           else if days = 0 then 100
           else if 1 \<le> days \<and> days \<le> 3 then 80 - 20 * days
           else if 4 \<le> days \<and> days \<le> 7 then 40 - 5 * days
           else max 0 (20 - days)))"

definition spec_age_term :: "datetime \<Rightarrow> task \<Rightarrow> int" where
  "spec_age_term now t = min 20 (2 * ((now - created_at t) div 86400000000))"

definition spec_priority_score :: "datetime \<Rightarrow> task \<Rightarrow> int" where
  "spec_priority_score now t = spec_base t + spec_deadline_term now t + spec_age_term now t"

section \<open>Python exceptions and loops that may raise\<close>

datatype py_error = KeyError | ValueError | TypeError | OSError

fun fold_err :: "('a \<Rightarrow> 's \<Rightarrow> py_error + 's) \<Rightarrow> 'a list \<Rightarrow> 's \<Rightarrow> py_error + 's" where
  "fold_err f [] s = Inr s"
| "fold_err f (x # xs) s = (case f x s of Inl e \<Rightarrow> Inl e | Inr s' \<Rightarrow> fold_err f xs s')"

section \<open>The ordering routine\<close>

subsection \<open>The ready heap\<close>

text \<open>
  The heap holds the tuples \<^verbatim>\<open>(-priority_score, task_id, task)\<close>. \<^verbatim>\<open>heapq\<close> orders
  tuples lexicographically; a \<^verbatim>\<open>Task\<close> has no ordering, so a comparison that gets past
  the first two components raises \<^verbatim>\<open>TypeError\<close>. The heap is modelled through the
  contract of \<^verbatim>\<open>heapq\<close>: it is the collection of its entries, \<^verbatim>\<open>heappop\<close> removes the
  least one. \<open>heappush\<close> raises as soon as the pushed pair of score and id is already in
  the heap (Python raises there only when the sift compares the two entries, so the model
  raises at least as often as the code).
\<close>

type_synonym entry = "int \<times> int \<times> task"

definition entry_key :: "entry \<Rightarrow> int \<times> int" where
  "entry_key e = (fst e, fst (snd e))"

definition entry_of :: "task \<Rightarrow> entry" where
  "entry_of t = (- priority_score t, task_id t, t)"

definition heappush :: "entry list \<Rightarrow> entry \<Rightarrow> py_error + entry list" where
  "heappush heap e =
     (if entry_key e \<in> entry_key ` set heap then Inl TypeError else Inr (e # heap))"

definition heappop :: "entry list \<Rightarrow> entry \<times> entry list" where
  "heappop heap = (let e = arg_min_list entry_key heap in (e, remove1 e heap))"

subsection \<open>Counting the blocking dependencies\<close>

definition make_task_dict :: "task list \<Rightarrow> (int \<rightharpoonup> task)" where
  "make_task_dict ts = foldl (\<lambda>m t. m(task_id t \<mapsto> t)) Map.empty ts"

definition make_in_degree :: "task list \<Rightarrow> (int \<rightharpoonup> int)" where
  "make_in_degree ts = foldl (\<lambda>m t. m(task_id t \<mapsto> 0)) Map.empty ts"

definition count_dep :: "(int \<rightharpoonup> task) \<Rightarrow> int \<Rightarrow> int \<Rightarrow> (int \<rightharpoonup> int) \<Rightarrow> py_error + (int \<rightharpoonup> int)" where
  "count_dep task_dict tid dep_id in_degree =
     (if dep_id \<in> dom in_degree then
        (case task_dict dep_id of
           None \<Rightarrow> Inr in_degree
         | Some d \<Rightarrow>
             if \<not> completed d then
               (case in_degree tid of
                  None \<Rightarrow> Inl KeyError
                | Some n \<Rightarrow> Inr (in_degree(tid \<mapsto> n + 1)))
             else Inr in_degree)
      else Inr in_degree)"

definition count_task :: "(int \<rightharpoonup> task) \<Rightarrow> task \<Rightarrow> (int \<rightharpoonup> int) \<Rightarrow> py_error + (int \<rightharpoonup> int)" where
  "count_task task_dict t in_degree =
     fold_err (count_dep task_dict (task_id t)) (dependencies t) in_degree"

definition calc_in_degrees :: "task list \<Rightarrow> py_error + (int \<rightharpoonup> int)" where
  "calc_in_degrees ts =
     fold_err (count_task (make_task_dict ts)) ts (make_in_degree ts)"

subsection \<open>The initial ready heap\<close>

definition push_if_ready :: "(int \<rightharpoonup> int) \<Rightarrow> task \<Rightarrow> entry list \<Rightarrow> py_error + entry list" where
  "push_if_ready in_degree t heap =
     (case in_degree (task_id t) of
        None \<Rightarrow> Inl KeyError
      | Some n \<Rightarrow> if n = 0 then heappush heap (entry_of t) else Inr heap)"

definition initial_heap :: "task list \<Rightarrow> (int \<rightharpoonup> int) \<Rightarrow> py_error + entry list" where
  "initial_heap ts in_degree = fold_err (push_if_ready in_degree) ts []"

subsection \<open>The main loop\<close>

text \<open>
  One pass of the inner \<^verbatim>\<open>for other_task in tasks\<close> after the task with id \<open>tid\<close> was
  emitted; the state is the pair of the in-degree dict and the heap.
\<close>

definition release_step ::
  "int \<Rightarrow> task \<Rightarrow> (int \<rightharpoonup> int) \<times> entry list \<Rightarrow> py_error + ((int \<rightharpoonup> int) \<times> entry list)" where
  "release_step tid other_task s =
     (case s of (in_degree, heap) \<Rightarrow>
        if tid \<in> set (dependencies other_task) \<and> \<not> completed other_task then
          (case in_degree (task_id other_task) of
             None \<Rightarrow> Inl KeyError
           | Some n \<Rightarrow>
               (let in_degree' = in_degree(task_id other_task \<mapsto> n - 1) in
                if n - 1 = 0 then
                  (case heappush heap (entry_of other_task) of
                     Inl e \<Rightarrow> Inl e
                   | Inr heap' \<Rightarrow> Inr (in_degree', heap'))
                else Inr (in_degree', heap)))
        else Inr (in_degree, heap))"

definition release ::
  "task list \<Rightarrow> int \<Rightarrow> (int \<rightharpoonup> int) \<times> entry list \<Rightarrow> py_error + ((int \<rightharpoonup> int) \<times> entry list)" where
  "release ts tid s = fold_err (release_step tid) ts s"

text \<open>
  The \<^verbatim>\<open>while available_tasks\<close> loop. It terminates (proved below): the size of the
  heap plus the number of tasks that still have a positive in-degree gets smaller with
  every pass.
\<close>

function main_loop ::
  "task list \<Rightarrow> (int \<rightharpoonup> int) \<Rightarrow> entry list \<Rightarrow> task list \<Rightarrow> py_error + task list" where
  "main_loop ts in_degree heap sorted_tasks =
     (if heap = [] then Inr sorted_tasks
      else
        (case heappop heap of
           ((neg_score, tid, t), heap1) \<Rightarrow>
             (case release ts tid (in_degree, heap1) of
                Inl err \<Rightarrow> Inl err
              | Inr (in_degree', heap') \<Rightarrow>
                  main_loop ts in_degree' heap' (sorted_tasks @ [t]))))"
  by pat_completeness auto

definition waiting :: "task list \<Rightarrow> (int \<rightharpoonup> int) \<Rightarrow> nat" where
  "waiting ts in_degree = card {i \<in> task_id ` set ts. \<exists>n. in_degree i = Some n \<and> 0 < n}"

text \<open>
  \<^verbatim>\<open>_topological_sort_with_priority\<close>: the tasks the loop did not emit are appended,
  sorted by \<^verbatim>\<open>list.sort(key=lambda x: -x.priority_score)\<close>, which is a stable sort.
  \<^verbatim>\<open>t not in sorted_tasks\<close> compares objects; the tasks of one call have pairwise
  different ids, so equal records are the same object.
\<close>

definition topological_sort_with_priority :: "task list \<Rightarrow> py_error + task list" where
  "topological_sort_with_priority ts =
     (case calc_in_degrees ts of
        Inl e \<Rightarrow> Inl e
      | Inr in_degree \<Rightarrow>
          (case initial_heap ts in_degree of
             Inl e \<Rightarrow> Inl e
           | Inr available_tasks \<Rightarrow>
               (case main_loop ts in_degree available_tasks [] of
                  Inl e \<Rightarrow> Inl e
                | Inr sorted_tasks \<Rightarrow>
                    (let remaining_tasks = filter (\<lambda>t. t \<notin> set sorted_tasks) ts
                     in Inr (sorted_tasks @ sort_key (\<lambda>x. - priority_score x) remaining_tasks)))))"

section \<open>The task manager\<close>

text \<open>
  \<^verbatim>\<open>TaskManager\<close>. The dict \<^verbatim>\<open>self.tasks\<close> keeps its insertion order, which
  \<^verbatim>\<open>values()\<close> exposes: it is an association list from id to task. The attribute
  \<^verbatim>\<open>priority_queue\<close> is never read or written after the constructor and is left out.
\<close>

record manager =
  tasks :: "(int \<times> task) list"
  next_id :: int

definition init_manager :: manager where
  "init_manager = \<lparr>tasks = [], next_id = 1\<rparr>"

text \<open>
  What every dict of tasks built by the manager satisfies: keys are unique (it is a dict)
  and each task is stored under its own id.
\<close>

definition manager_ok :: "manager \<Rightarrow> bool" where
  "manager_ok m \<longleftrightarrow>
     distinct (map fst (tasks m)) \<and> list_all (\<lambda>p. task_id (snd p) = fst p) (tasks m)"

definition update_priorities :: "datetime \<Rightarrow> manager \<Rightarrow> manager" where
  "update_priorities now m = m\<lparr>tasks := AList.map_ran (\<lambda>k t. rescore now t) (tasks m)\<rparr>"

definition add_task ::
  "datetime \<Rightarrow> string \<Rightarrow> string \<Rightarrow> datetime option \<Rightarrow> int \<Rightarrow> int list option \<Rightarrow> manager
     \<Rightarrow> int \<times> manager" where
  "add_task now ttl descr dl urg deps m =
     (let t = new_task now (next_id m) ttl descr dl urg deps;
          m1 = m\<lparr>tasks := AList.update (next_id m) t (tasks m)\<rparr>;
          m2 = m1\<lparr>next_id := next_id m1 + 1\<rparr>
      in (task_id t, update_priorities now m2))"

text \<open>
  \<^verbatim>\<open>edit_task\<close>: every optional parameter uses \<^verbatim>\<open>None\<close> for "not supplied".
\<close>

definition apply_edit ::
  "string option \<Rightarrow> string option \<Rightarrow> datetime option \<Rightarrow> int option \<Rightarrow> int list option
     \<Rightarrow> task \<Rightarrow> task" where
  "apply_edit ttl descr dl urg deps t =
     (let t1 = (case ttl of None \<Rightarrow> t | Some v \<Rightarrow> t\<lparr>title := v\<rparr>);
          t2 = (case descr of None \<Rightarrow> t1 | Some v \<Rightarrow> t1\<lparr>description := v\<rparr>);
          t3 = (case dl of None \<Rightarrow> t2 | Some v \<Rightarrow> t2\<lparr>deadline := Some v\<rparr>);
          t4 = (case urg of None \<Rightarrow> t3 | Some v \<Rightarrow> t3\<lparr>urgency := v\<rparr>);
          t5 = (case deps of None \<Rightarrow> t4 | Some v \<Rightarrow> t4\<lparr>dependencies := v\<rparr>)
      in t5)"

definition edit_task ::
  "datetime \<Rightarrow> int \<Rightarrow> string option \<Rightarrow> string option \<Rightarrow> datetime option \<Rightarrow> int option
     \<Rightarrow> int list option \<Rightarrow> manager \<Rightarrow> bool \<times> manager" where
  "edit_task now tid ttl descr dl urg deps m =
     (if tid \<notin> fst ` set (tasks m) then (False, m)
      else
        (let m1 = m\<lparr>tasks :=
                     AList.map_ran (\<lambda>k t. if k = tid then apply_edit ttl descr dl urg deps t else t)
                       (tasks m)\<rparr>
         in (True, update_priorities now m1)))"

text \<open>
  \<^verbatim>\<open>delete_task\<close>: \<^verbatim>\<open>list.remove\<close> takes out the first occurrence only. The
  dependency lists of different tasks are taken to be different list objects.
\<close>

definition strip_dependency :: "int \<Rightarrow> task \<Rightarrow> task" where
  "strip_dependency tid t =
     (if tid \<in> set (dependencies t) then t\<lparr>dependencies := remove1 tid (dependencies t)\<rparr> else t)"

definition delete_task :: "datetime \<Rightarrow> int \<Rightarrow> manager \<Rightarrow> bool \<times> manager" where
  "delete_task now tid m =
     (if tid \<notin> fst ` set (tasks m) then (False, m)
      else
        (let m1 = m\<lparr>tasks := AList.map_ran (\<lambda>k t. strip_dependency tid t) (tasks m)\<rparr>;
             m2 = m1\<lparr>tasks := AList.delete tid (tasks m1)\<rparr>
         in (True, update_priorities now m2)))"

definition complete_task :: "datetime \<Rightarrow> int \<Rightarrow> manager \<Rightarrow> bool \<times> manager" where
  "complete_task now tid m =
     (if tid \<notin> fst ` set (tasks m) then (False, m)
      else
        (let m1 = m\<lparr>tasks :=
                     AList.map_ran (\<lambda>k t. if k = tid then t\<lparr>completed := True\<rparr> else t) (tasks m)\<rparr>
         in (True, update_priorities now m1)))"

text \<open>
  \<^verbatim>\<open>get_sorted_tasks\<close>, the operation \<^verbatim>\<open>ordered(include_completed)\<close> of the
  specification. The working set is rescored in place, so the manager changes too; the
  result is the outcome of the sort (an exception would propagate to the caller).
\<close>

definition in_working_set :: "bool \<Rightarrow> task \<Rightarrow> bool" where
  "in_working_set include_completed t \<longleftrightarrow> include_completed \<or> \<not> completed t"

definition working_set :: "datetime \<Rightarrow> bool \<Rightarrow> manager \<Rightarrow> task list" where
  "working_set now include_completed m =
     map (rescore now) (filter (in_working_set include_completed) (map snd (tasks m)))"

definition get_sorted_tasks :: "datetime \<Rightarrow> bool \<Rightarrow> manager \<Rightarrow> (py_error + task list) \<times> manager" where
  "get_sorted_tasks now include_completed m =
     (let m' = m\<lparr>tasks :=
                  AList.map_ran
                    (\<lambda>k t. if in_working_set include_completed t then rescore now t else t)
                    (tasks m)\<rparr>
      in (topological_sort_with_priority (working_set now include_completed m), m'))"

section \<open>Persistence\<close>

text \<open>
  Persistence. A task is written as a flat JSON record and the manager as a JSON object
  with the keys \<^verbatim>\<open>tasks\<close> and \<^verbatim>\<open>next_id\<close>. A record is modelled after \<^verbatim>\<open>json.load\<close>:
  each key is absent (\<open>None\<close>) or holds a value of the JSON type the writer gives it; for
  \<^verbatim>\<open>deadline\<close>, which the reader fetches with \<^verbatim>\<open>data.get\<close> and tests for truth, absent
  and \<^verbatim>\<open>null\<close> are the same. Timestamps are ISO-8601 strings; the library functions
  \<^verbatim>\<open>datetime.isoformat\<close> and \<^verbatim>\<open>datetime.fromisoformat\<close> are parameters of the model.
  \<open>fromisoformat\<close> returns \<open>None\<close> where Python raises \<^verbatim>\<open>ValueError\<close>. A string with a
  UTC offset parses to an offset-aware \<^verbatim>\<open>datetime\<close>: the task keeps it, but subtracting
  it from or by the naive clock reading raises \<^verbatim>\<open>TypeError\<close>, so such a task cannot be
  scored. The typed task holds the date and time read off an aware timestamp; that the
  timestamp is aware is kept beside the task while the file is loaded.
\<close>

datatype parsed_datetime = Naive datetime | Aware datetime

fun instant :: "parsed_datetime \<Rightarrow> datetime" where
  "instant (Naive d) = d"
| "instant (Aware d) = d"

fun is_aware :: "parsed_datetime \<Rightarrow> bool" where
  "is_aware (Naive d) = False"
| "is_aware (Aware d) = True"

record task_record =
  r_task_id :: "int option"
  r_title :: "string option"
  r_description :: "string option"
  r_deadline :: "string option"
  r_urgency :: "int option"
  r_dependencies :: "int list option"
  r_completed :: "bool option"
  r_created_at :: "string option"
  r_priority_score :: "int option"

record file_data =
  f_tasks :: "task_record list option"
  f_next_id :: "int option"

text \<open>
  What \<^verbatim>\<open>open\<close> and \<^verbatim>\<open>json.load\<close> yield: an exception (the file cannot be read or is not
  JSON), a JSON value that is not an object, or an object.
\<close>

datatype json_file = Unreadable py_error | NotAnObject | Object file_data

definition to_dict :: "(datetime \<Rightarrow> string) \<Rightarrow> task \<Rightarrow> task_record" where
  "to_dict isoformat t =
     \<lparr>r_task_id = Some (task_id t),
      r_title = Some (title t),
      r_description = Some (description t),
      r_deadline = (case deadline t of None \<Rightarrow> None | Some d \<Rightarrow> Some (isoformat d)),
      r_urgency = Some (urgency t),
      r_dependencies = Some (dependencies t),
      r_completed = Some (completed t),
      r_created_at = Some (isoformat (created_at t)),
      r_priority_score = Some (priority_score t)\<rparr>"

text \<open>
  \<^verbatim>\<open>Task.from_dict\<close>, in the order Python evaluates it: the two required keys, the
  deadline (a non-empty string is parsed), the constructor, then the completed flag, the
  creation time (parsed; by default the clock reading, written and parsed back) and the
  score. The result is the task together with the mark that its deadline or its creation
  time is offset-aware.
\<close>

definition from_dict ::
  "(datetime \<Rightarrow> string) \<Rightarrow> (string \<Rightarrow> parsed_datetime option) \<Rightarrow> datetime \<Rightarrow> task_record
     \<Rightarrow> py_error + task \<times> bool" where
  "from_dict isoformat fromisoformat now data =
     (case r_task_id data of
        None \<Rightarrow> Inl KeyError
      | Some tid \<Rightarrow>
     (case r_title data of
        None \<Rightarrow> Inl KeyError
      | Some ttl \<Rightarrow>
     (case (case r_deadline data of
              None \<Rightarrow> Inr None
            | Some s \<Rightarrow>
                if s = [] then Inr None
                else (case fromisoformat s of None \<Rightarrow> Inl ValueError | Some d \<Rightarrow> Inr (Some d))) of
        Inl e \<Rightarrow> Inl e
      | Inr dl \<Rightarrow>
     (let t = new_task now tid ttl
                (case r_description data of None \<Rightarrow> [] | Some d \<Rightarrow> d)
                (map_option instant dl)
                (case r_urgency data of None \<Rightarrow> 5 | Some u \<Rightarrow> u)
                (Some (case r_dependencies data of None \<Rightarrow> [] | Some ds \<Rightarrow> ds));
          t1 = t\<lparr>completed := (case r_completed data of None \<Rightarrow> False | Some c \<Rightarrow> c)\<rparr>
      in (case fromisoformat (case r_created_at data of None \<Rightarrow> isoformat now | Some s \<Rightarrow> s) of
            None \<Rightarrow> Inl ValueError
          | Some c \<Rightarrow>
              Inr (t1\<lparr>created_at := instant c,
                      priority_score := (case r_priority_score data of None \<Rightarrow> 0 | Some p \<Rightarrow> p)\<rparr>,
                   (case dl of None \<Rightarrow> False | Some d \<Rightarrow> is_aware d) \<or> is_aware c))))))"

text \<open>\<^verbatim>\<open>save_to_json\<close>: the document handed to \<^verbatim>\<open>json.dump\<close>.\<close>

definition save_to_json :: "(datetime \<Rightarrow> string) \<Rightarrow> manager \<Rightarrow> file_data" where
  "save_to_json isoformat m =
     \<lparr>f_tasks = Some (map (\<lambda>p. to_dict isoformat (snd p)) (tasks m)),
      f_next_id = Some (next_id m)\<rparr>"

text \<open>
  \<^verbatim>\<open>load_from_json\<close>. Everything after reading the file runs inside one \<^verbatim>\<open>try\<close>, and
  every exception is caught and turned into the result \<^verbatim>\<open>False\<close>, the manager staying as
  it is at that moment. \<^verbatim>\<open>self.tasks = {}\<close> comes first. The loop over the records then
  stores each decoded task at once (\<open>load_records\<close>, on the dict of marked tasks); it stops
  at the first record that raises. After the loop \<^verbatim>\<open>next_id\<close> is assigned, and
  \<^verbatim>\<open>_update_priorities()\<close> scores the tasks in dict order (\<open>update_loaded\<close>): it raises at
  the first task with an offset-aware timestamp, with the tasks before it rescored and the
  others not. (In the code a record whose urgency is not a number takes this last path too;
  the record type does not hold such a value.)
\<close>

type_synonym loaded = "(int \<times> task \<times> bool) list"

definition unmarked :: "loaded \<Rightarrow> (int \<times> task) list" where
  "unmarked al = map (\<lambda>p. (fst p, fst (snd p))) al"

fun load_records ::
  "(datetime \<Rightarrow> string) \<Rightarrow> (string \<Rightarrow> parsed_datetime option) \<Rightarrow> datetime \<Rightarrow> task_record list
     \<Rightarrow> loaded \<Rightarrow> py_error option \<times> loaded" where
  "load_records isoformat fromisoformat now [] al = (None, al)"
| "load_records isoformat fromisoformat now (data # rest) al =
     (case from_dict isoformat fromisoformat now data of
        Inl e \<Rightarrow> (Some e, al)
      | Inr d \<Rightarrow>
          load_records isoformat fromisoformat now rest (AList.update (task_id (fst d)) d al))"

fun update_loaded :: "datetime \<Rightarrow> loaded \<Rightarrow> py_error option \<times> (int \<times> task) list" where
  "update_loaded now [] = (None, [])"
| "update_loaded now (p # rest) =
     (if snd (snd p) then (Some TypeError, unmarked (p # rest))
      else (case update_loaded now rest of
              (r, scored) \<Rightarrow> (r, (fst p, rescore now (fst (snd p))) # scored)))"

definition load_from_json ::
  "(datetime \<Rightarrow> string) \<Rightarrow> (string \<Rightarrow> parsed_datetime option) \<Rightarrow> datetime \<Rightarrow> json_file
     \<Rightarrow> manager \<Rightarrow> bool \<times> manager" where
  "load_from_json isoformat fromisoformat now file m =
     (case file of
        Unreadable e \<Rightarrow> (False, m)
      | NotAnObject \<Rightarrow> (False, m\<lparr>tasks := []\<rparr>)
      | Object data \<Rightarrow>
          (case load_records isoformat fromisoformat now
                  (case f_tasks data of None \<Rightarrow> [] | Some rs \<Rightarrow> rs) [] of
             (Some e, al) \<Rightarrow> (False, m\<lparr>tasks := unmarked al\<rparr>)
           | (None, al) \<Rightarrow>
               (case update_loaded now al of
                  (Some e, scored) \<Rightarrow>
                    (False, m\<lparr>tasks := scored,
                              next_id := (case f_next_id data of None \<Rightarrow> 1 | Some n \<Rightarrow> n)\<rparr>)
                | (None, scored) \<Rightarrow>
                    (True, m\<lparr>tasks := scored,
                             next_id := (case f_next_id data of None \<Rightarrow> 1 | Some n \<Rightarrow> n)\<rparr>))))"

section \<open>Notions for the statements\<close>

subsection \<open>Heap entries and blocking dependencies\<close>

text \<open>
  The id and the task of a heap entry. A dependency entry \<open>d\<close> of a task blocks, in a list
  of tasks, when \<open>d\<close> is the id of a task of the list that is not completed; the blocking
  in-edge count of a task is the number of its dependency entries that block. Seen from
  the manager, a dependency entry cannot block when it names no stored task or a completed
  one (a task outside the working set is a completed one).
\<close>

definition entry_id :: "entry \<Rightarrow> int" where
  "entry_id e = fst (snd e)"

definition entry_task :: "entry \<Rightarrow> task" where
  "entry_task e = snd (snd e)"

definition blocking :: "task list \<Rightarrow> int \<Rightarrow> bool" where
  "blocking ts d \<longleftrightarrow> (\<exists>x \<in> set ts. task_id x = d \<and> \<not> completed x)"

definition blocking_count :: "task list \<Rightarrow> task \<Rightarrow> int" where
  "blocking_count ts t = int (length (filter (blocking ts) (dependencies t)))"

definition non_blocking_dep :: "manager \<Rightarrow> int \<Rightarrow> bool" where
  "non_blocking_dep m d \<longleftrightarrow> (case map_of (tasks m) d of None \<Rightarrow> True | Some x \<Rightarrow> completed x)"

subsection \<open>The states of the main loop\<close>

text \<open>
  The states of the main loop at the head of the \<^verbatim>\<open>while\<close>: in-degree dict, ready heap
  and the list emitted so far.
\<close>

inductive loop_reach :: "task list \<Rightarrow> (int \<rightharpoonup> int) \<Rightarrow> entry list \<Rightarrow> task list \<Rightarrow> bool"
  for ts :: "task list" where
  start: "calc_in_degrees ts = Inr in_degree \<Longrightarrow> initial_heap ts in_degree = Inr heap
          \<Longrightarrow> loop_reach ts in_degree heap []"
| pass: "loop_reach ts in_degree heap sorted_tasks \<Longrightarrow> heap \<noteq> []
          \<Longrightarrow> heappop heap = ((k, tid, t), heap1)
          \<Longrightarrow> release ts tid (in_degree, heap1) = Inr (in_degree', heap')
          \<Longrightarrow> loop_reach ts in_degree' heap' (sorted_tasks @ [t])"

subsection \<open>Positions in the result\<close>

text \<open>Some occurrence of \<open>a\<close> in the list has an occurrence of \<open>b\<close> strictly after it.\<close>

fun appears_before :: "'a \<Rightarrow> 'a \<Rightarrow> 'a list \<Rightarrow> bool" where
  "appears_before a b [] = False"
| "appears_before a b (x # xs) = ((x = a \<and> b \<in> set xs) \<or> appears_before a b xs)"

subsection \<open>Dependency chains\<close>

text \<open>The pairs (task, dependency) of a list of tasks, by id.\<close>

definition depends_on :: "task list \<Rightarrow> (int \<times> int) set" where
  "depends_on ts = {(task_id x, i) | x i. x \<in> set ts \<and> i \<in> set (dependencies x)}"

text \<open>
  The dependency chains from the task with id \<open>d\<close> inside the list all end, and no task on
  them lists a dependency of the list twice: the task is neither on a dependency cycle nor
  downstream of one.
\<close>

inductive grounded :: "task list \<Rightarrow> int \<Rightarrow> bool" for ts :: "task list" where
  chain: "x \<in> set ts \<Longrightarrow> task_id x = d
          \<Longrightarrow> distinct (filter (\<lambda>i. i \<in> task_id ` set ts) (dependencies x))
          \<Longrightarrow> (\<forall>i \<in> set (dependencies x). i \<in> task_id ` set ts \<longrightarrow> grounded ts i)
          \<Longrightarrow> grounded ts d"

subsection \<open>Round trips through the file\<close>

text \<open>
  Writing and reading back the timestamps of a manager's tasks gives them back (as the
  naive timestamps they are).
\<close>

definition roundtrips ::
  "(datetime \<Rightarrow> string) \<Rightarrow> (string \<Rightarrow> parsed_datetime option) \<Rightarrow> datetime \<Rightarrow> bool" where
  "roundtrips isoformat fromisoformat d \<longleftrightarrow>
     isoformat d \<noteq> [] \<and> fromisoformat (isoformat d) = Some (Naive d)"

definition task_roundtrips ::
  "(datetime \<Rightarrow> string) \<Rightarrow> (string \<Rightarrow> parsed_datetime option) \<Rightarrow> task \<Rightarrow> bool" where
  "task_roundtrips isoformat fromisoformat t \<longleftrightarrow>
     roundtrips isoformat fromisoformat (created_at t) \<and>
     (case deadline t of None \<Rightarrow> True | Some d \<Rightarrow> roundtrips isoformat fromisoformat d)"

definition codec_ok ::
  "(datetime \<Rightarrow> string) \<Rightarrow> (string \<Rightarrow> parsed_datetime option) \<Rightarrow> manager \<Rightarrow> bool" where
  "codec_ok isoformat fromisoformat m \<longleftrightarrow>
     list_all (\<lambda>p. task_roundtrips isoformat fromisoformat (snd p)) (tasks m)"

text \<open>A task without its score, to compare tasks up to the derived score.\<close>

definition forget_score :: "task \<Rightarrow> task" where
  "forget_score t = t\<lparr>priority_score := 0\<rparr>"



subsection \<open>Examples\<close>

text \<open>Tasks and managers for the examples.\<close>

definition example_task :: "int \<Rightarrow> int \<Rightarrow> int list \<Rightarrow> bool \<Rightarrow> task" where
  "example_task i urg deps done =
     \<lparr>task_id = i, title = ''task'', description = [], deadline = None, urgency = urg,
      dependencies = deps, completed = done, created_at = 0, priority_score = 0\<rparr>"

definition example_manager :: "task list \<Rightarrow> manager" where
  "example_manager xs = \<lparr>tasks = map (\<lambda>t. (task_id t, t)) xs, next_id = 1 + int (length xs)\<rparr>"

text \<open>
  For the examples, the two library functions on the strings the examples use: the
  model's instant 0 is written as the first second of 1970, the instant one day later as
  the first second of the next day, and the latter with the offset of UTC appended is an
  offset-aware timestamp; no other string is read in the examples except unparsable ones.
\<close>

definition example_isoformat :: "datetime \<Rightarrow> string" where
  "example_isoformat d =
     (if d = 86400000000 then ''1970-01-02T00:00:00'' else ''1970-01-01T00:00:00'')"

definition example_fromisoformat :: "string \<Rightarrow> parsed_datetime option" where
  "example_fromisoformat s =
     (if s = ''1970-01-01T00:00:00'' then Some (Naive 0)
      else if s = ''1970-01-02T00:00:00'' then Some (Naive 86400000000)
      else if s = ''1970-01-02T00:00:00+00:00'' then Some (Aware 86400000000)
      else None)"

section \<open>Notions for the proofs\<close>

text \<open>
  The passes of the ordering routine in closed form, for lists of tasks with pairwise
  different ids: the in-degree dict after the counting pass, the tasks pushed on the initial
  heap, and, for the pass after the task with id \<open>tid\<close> was emitted, the tasks whose
  in-degree is decremented (\<open>hit\<close>), the in-degree dict after the pass and the tasks pushed.
\<close>

definition expected_in_degree :: "task list \<Rightarrow> (int \<rightharpoonup> int)" where
  "expected_in_degree ts = (\<lambda>i. map_option (blocking_count ts) (find (\<lambda>t. task_id t = i) ts))"

definition ready_tasks :: "task list \<Rightarrow> task list" where
  "ready_tasks ts = filter (\<lambda>t. expected_in_degree ts (task_id t) = Some 0) ts"

definition hit :: "int \<Rightarrow> task \<Rightarrow> bool" where
  "hit tid other \<longleftrightarrow> tid \<in> set (dependencies other) \<and> \<not> completed other"

definition dec_in_degree :: "int \<Rightarrow> task list \<Rightarrow> (int \<rightharpoonup> int) \<Rightarrow> (int \<rightharpoonup> int)" where
  "dec_in_degree tid xs in_degree =
     (\<lambda>i. case find (\<lambda>t. task_id t = i) xs of
            None \<Rightarrow> in_degree i
          | Some other \<Rightarrow> if hit tid other then map_option (\<lambda>n. n - 1) (in_degree i) else in_degree i)"

definition released :: "int \<Rightarrow> task list \<Rightarrow> (int \<rightharpoonup> int) \<Rightarrow> task list" where
  "released tid xs in_degree = filter (\<lambda>other. hit tid other \<and> in_degree (task_id other) = Some 1) xs"

text \<open>
  Invariants of the main loop. \<open>loop_inv\<close>: every entry of the heap is the entry of a task
  of the list, no task is twice in the heap or the emitted list or in both, and whatever is
  there has an in-degree of at most zero. \<open>order_inv\<close> follows two entries \<open>a\<close> and \<open>b\<close>
  from the heap into the emitted list. \<open>strong_inv\<close>, for lists without completed tasks:
  the in-degree of a task is its blocking count minus the number of its dependencies
  emitted so far, a task with in-degree zero has been pushed, and every emitted task comes
  after all its dependencies in the list.
\<close>

definition loop_inv :: "task list \<Rightarrow> (int \<rightharpoonup> int) \<Rightarrow> entry list \<Rightarrow> task list \<Rightarrow> bool" where
  "loop_inv ts in_degree heap sorted_tasks \<longleftrightarrow>
     distinct (map task_id ts) \<and>
     dom in_degree = task_id ` set ts \<and>
     (\<forall>e \<in> set heap. entry_task e \<in> set ts \<and> e = entry_of (entry_task e)) \<and>
     set sorted_tasks \<subseteq> set ts \<and>
     distinct (map entry_id heap @ map task_id sorted_tasks) \<and>
     (\<forall>i \<in> entry_id ` set heap \<union> task_id ` set sorted_tasks. \<exists>n. in_degree i = Some n \<and> n \<le> 0)"

definition order_inv ::
  "task list \<Rightarrow> entry \<Rightarrow> entry \<Rightarrow> (int \<rightharpoonup> int) \<Rightarrow> entry list \<Rightarrow> task list \<Rightarrow> bool" where
  "order_inv ts a b in_degree heap sorted_tasks \<longleftrightarrow>
     loop_inv ts in_degree heap sorted_tasks \<and>
     ((a \<in> set heap \<and> b \<in> set heap)
      \<or> (entry_id a \<in> task_id ` set sorted_tasks \<and> b \<in> set heap)
      \<or> appears_before (entry_id a) (entry_id b) (map task_id sorted_tasks))"

definition strong_inv :: "task list \<Rightarrow> (int \<rightharpoonup> int) \<Rightarrow> entry list \<Rightarrow> task list \<Rightarrow> bool" where
  "strong_inv ts in_degree heap sorted_tasks \<longleftrightarrow>
     loop_inv ts in_degree heap sorted_tasks \<and>
     (\<forall>t \<in> set ts. \<not> completed t) \<and>
     (\<forall>t \<in> set ts. in_degree (task_id t) =
        Some (blocking_count ts t - int (card (set (dependencies t) \<inter> task_id ` set sorted_tasks)))) \<and>
     (\<forall>t \<in> set ts. in_degree (task_id t) = Some 0
        \<longrightarrow> task_id t \<in> entry_id ` set heap \<union> task_id ` set sorted_tasks) \<and>
     (\<forall>t \<in> set sorted_tasks. \<forall>d \<in> set (dependencies t). d \<in> task_id ` set ts
        \<longrightarrow> appears_before d (task_id t) (map task_id sorted_tasks))"

section \<open>Termination of the main loop\<close>

lemma finite_waiting_set:
  "finite {i \<in> task_id ` set ts. \<exists>n. in_degree i = Some n \<and> 0 < n}"
  by simp

lemma release_step_measure:
  assumes "release_step tid other (in_degree, heap) = Inr (in_degree', heap')"
    and "other \<in> set ts"
  shows "length heap' + waiting ts in_degree' \<le> length heap + waiting ts in_degree"
proof (cases "tid \<in> set (dependencies other) \<and> \<not> completed other")
  case False
  with assms show ?thesis by (auto simp: release_step_def)
next
  case True
  with assms obtain n where n: "in_degree (task_id other) = Some n"
    by (auto simp: release_step_def split: option.splits)
  let ?W = "\<lambda>d. {i \<in> task_id ` set ts. \<exists>n. d i = Some n \<and> 0 < n}"
  show ?thesis
  proof (cases "n = 1")
    case True
    with assms \<open>tid \<in> set (dependencies other) \<and> \<not> completed other\<close> n
    have d: "in_degree' = in_degree(task_id other \<mapsto> 0)" and h: "length heap' = Suc (length heap)"
      by (auto simp: release_step_def heappush_def Let_def split: if_splits sum.splits)
    have mem: "task_id other \<in> ?W in_degree" using n True assms(2) by auto
    have "?W in_degree' = ?W in_degree - {task_id other}" unfolding d by auto
    then have "card (?W in_degree') = card (?W in_degree) - 1"
      using mem by simp
    moreover have "0 < card (?W in_degree)" using mem finite_waiting_set[of ts in_degree]
      by (metis (no_types, lifting) card_gt_0_iff empty_iff)
    ultimately show ?thesis using h by (simp add: waiting_def)
  next
    case False
    with assms \<open>tid \<in> set (dependencies other) \<and> \<not> completed other\<close> n
    have d: "in_degree' = in_degree(task_id other \<mapsto> n - 1)" and h: "heap' = heap"
      by (auto simp: release_step_def Let_def split: if_splits sum.splits)
    have "?W in_degree' \<subseteq> ?W in_degree" unfolding d using n by auto
    then have "card (?W in_degree') \<le> card (?W in_degree)"
      by (intro card_mono finite_waiting_set)
    then show ?thesis using h by (simp add: waiting_def)
  qed
qed

lemma release_measure_aux:
  "fold_err (release_step tid) xs s = Inr s' \<Longrightarrow> set xs \<subseteq> set ts \<Longrightarrow>
   length (snd s') + waiting ts (fst s') \<le> length (snd s) + waiting ts (fst s)"
proof (induction xs arbitrary: s)
  case Nil
  then show ?case by simp
next
  case (Cons x xs)
  from Cons.prems(1) obtain s1 where s1: "release_step tid x s = Inr s1"
    and rest: "fold_err (release_step tid) xs s1 = Inr s'"
    by (auto split: sum.splits)
  have "length (snd s1) + waiting ts (fst s1) \<le> length (snd s) + waiting ts (fst s)"
    using release_step_measure[of tid x "fst s" "snd s" "fst s1" "snd s1" ts] s1 Cons.prems(2)
    by simp
  moreover have "length (snd s') + waiting ts (fst s') \<le> length (snd s1) + waiting ts (fst s1)"
    using Cons.IH[OF rest] Cons.prems(2) by simp
  ultimately show ?case by linarith
qed

lemma release_measure:
  "release ts tid (in_degree, heap) = Inr (in_degree', heap') \<Longrightarrow>
   length heap' + waiting ts in_degree' \<le> length heap + waiting ts in_degree"
  using release_measure_aux[of tid ts "(in_degree, heap)" "(in_degree', heap')" ts]
  by (simp add: release_def)

lemma heappop_length:
  "heap \<noteq> [] \<Longrightarrow> heappop heap = (e, heap') \<Longrightarrow> Suc (length heap') = length heap"
  by (auto simp: heappop_def Let_def length_remove1 arg_min_list_in)

lemma main_loop_decreases:
  assumes "heap \<noteq> []" and "(e, heap1) = heappop heap"
    and "release ts tid (in_degree, heap1) = Inr (in_degree', heap')"
  shows "length heap' + waiting ts in_degree' < length heap + waiting ts in_degree"
  using heappop_length[OF assms(1) assms(2)[symmetric]] release_measure[OF assms(3)] by linarith

termination main_loop
  apply (relation "measure (\<lambda>(ts, in_degree, heap, sorted_tasks). length heap + waiting ts in_degree)")
   apply simp
  apply (auto dest: main_loop_decreases)
  done

declare main_loop.simps [simp del]

section \<open>The passes of the ordering routine, in closed form\<close>

lemma fold_err_append:
  "fold_err f (xs @ ys) s = (case fold_err f xs s of Inl e \<Rightarrow> Inl e | Inr s' \<Rightarrow> fold_err f ys s')"
  by (induction xs arbitrary: s) (auto split: sum.splits)

lemma foldl_upd_apply:
  "foldl (\<lambda>m t. m(f t \<mapsto> g t)) m0 xs i =
     (case map_of (rev (map (\<lambda>t. (f t, g t)) xs)) i of None \<Rightarrow> m0 i | Some v \<Rightarrow> Some v)"
  by (induction xs rule: rev_induct) (auto split: option.splits)

lemma make_in_degree_apply:
  "make_in_degree ts i = (if i \<in> task_id ` set ts then Some 0 else None)"
proof -
  have "map_of (rev (map (\<lambda>t. (task_id t, 0::int)) ts)) i =
        (if i \<in> task_id ` set ts then Some 0 else None)"
    by (induction ts) (auto simp: map_of_append map_add_def split: option.splits)
  then show ?thesis
    unfolding make_in_degree_def foldl_upd_apply by simp
qed

lemma dom_make_in_degree: "dom (make_in_degree ts) = task_id ` set ts"
  by (auto simp: dom_def make_in_degree_apply)

lemma make_task_dict_apply:
  assumes "distinct (map task_id ts)"
  shows "make_task_dict ts i = find (\<lambda>t. task_id t = i) ts"
proof -
  have "map_of (rev (map (\<lambda>t. (task_id t, t)) ts)) i = find (\<lambda>t. task_id t = i) ts"
    using assms
  proof (induction ts)
    case Nil
    then show ?case by simp
  next
    case (Cons x xs)
    have "find (\<lambda>t. task_id t = task_id x) xs = None"
      using Cons.prems by (auto simp: find_None_iff) (metis imageI)
    with Cons show ?case
      by (auto simp: map_of_append map_add_def split: option.splits)
  qed
  then show ?thesis
    unfolding make_task_dict_def foldl_upd_apply by (simp split: option.splits)
qed

subsection \<open>The counting pass\<close>

lemma count_dep_result:
  assumes "in_degree tid = Some n"
  shows "count_dep td tid d in_degree =
         Inr (in_degree(tid \<mapsto> n + (if d \<in> dom in_degree \<and> (\<exists>x. td d = Some x \<and> \<not> completed x)
                                          then 1 else 0)))"
  using assms by (auto simp: count_dep_def fun_upd_idem split: option.splits)

lemma count_task_aux:
  assumes "in_degree tid = Some n"
  shows "fold_err (count_dep td tid) ds in_degree =
         Inr (in_degree(tid \<mapsto> n + int (length (filter
                (\<lambda>d. d \<in> dom in_degree \<and> (\<exists>x. td d = Some x \<and> \<not> completed x)) ds))))"
  using assms
proof (induction ds arbitrary: in_degree n)
  case Nil
  then show ?case by (simp add: fun_upd_idem)
next
  case (Cons d ds)
  let ?B = "\<lambda>d. d \<in> dom in_degree \<and> (\<exists>x. td d = Some x \<and> \<not> completed x)"
  define k :: int where "k = (if ?B d then 1 else 0)"
  define deg1 where "deg1 = in_degree(tid \<mapsto> n + k)"
  have dom1: "dom deg1 = dom in_degree" using Cons.prems by (auto simp: deg1_def)
  have step: "count_dep td tid d in_degree = Inr deg1"
    using count_dep_result[of in_degree tid n td d] Cons.prems by (simp add: deg1_def k_def)
  have "deg1 tid = Some (n + k)" by (simp add: deg1_def)
  then have "fold_err (count_dep td tid) ds deg1 =
        Inr (deg1(tid \<mapsto> (n + k) + int (length (filter
              (\<lambda>d. d \<in> dom deg1 \<and> (\<exists>x. td d = Some x \<and> \<not> completed x)) ds))))"
    by (rule Cons.IH[of deg1 "n + k"])
  then have "fold_err (count_dep td tid) ds deg1 =
        Inr (deg1(tid \<mapsto> (n + k) + int (length (filter ?B ds))))"
    by (simp only: dom1)
  moreover have len: "int (length (filter ?B (d # ds))) = k + int (length (filter ?B ds))"
    by (simp add: k_def)
  have "deg1(tid \<mapsto> (n + k) + int (length (filter ?B ds))) =
        in_degree(tid \<mapsto> n + int (length (filter ?B (d # ds))))"
    unfolding len by (simp add: deg1_def add.assoc)
  ultimately show ?case
    by (simp only: fold_err.simps step sum.case)
qed

lemma count_task_result:
  assumes "in_degree (task_id t) = Some n"
  shows "count_task td t in_degree =
         Inr (in_degree(task_id t \<mapsto> n + int (length (filter
                (\<lambda>d. d \<in> dom in_degree \<and> (\<exists>x. td d = Some x \<and> \<not> completed x))
                (dependencies t)))))"
  unfolding count_task_def using count_task_aux[of in_degree "task_id t" n] assms by simp

lemma find_id_Some:
  "distinct (map task_id ts) \<Longrightarrow> t \<in> set ts \<Longrightarrow> find (\<lambda>x. task_id x = task_id t) ts = Some t"
  by (induction ts) (auto simp: image_iff)

lemma find_id_SomeD: "find (\<lambda>x. task_id x = i) ts = Some t \<Longrightarrow> t \<in> set ts \<and> task_id t = i"
  by (induction ts) (auto split: if_splits)

lemma find_id_None: "find (\<lambda>x. task_id x = i) ts = None \<longleftrightarrow> i \<notin> task_id ` set ts"
  by (auto simp: find_None_iff)

lemma count_tasks_aux:
  assumes "distinct (map task_id xs)" and "task_id ` set xs \<subseteq> dom in_degree"
  shows "fold_err (count_task td) xs in_degree =
         Inr (\<lambda>i. case find (\<lambda>t. task_id t = i) xs of
                     None \<Rightarrow> in_degree i
                   | Some t \<Rightarrow> map_option (\<lambda>n. n + int (length (filter
                       (\<lambda>d. d \<in> dom in_degree \<and> (\<exists>x. td d = Some x \<and> \<not> completed x))
                       (dependencies t)))) (in_degree i))"
  using assms
proof (induction xs arbitrary: in_degree)
  case Nil
  then show ?case by simp
next
  case (Cons x xs)
  let ?cnt = "\<lambda>t. int (length (filter
                 (\<lambda>d. d \<in> dom in_degree \<and> (\<exists>x. td d = Some x \<and> \<not> completed x)) (dependencies t)))"
  from Cons.prems(2) obtain n where n: "in_degree (task_id x) = Some n" by auto
  define deg1 where "deg1 = in_degree(task_id x \<mapsto> n + ?cnt x)"
  have dom1: "dom deg1 = dom in_degree" using n by (auto simp: deg1_def)
  have step: "count_task td x in_degree = Inr deg1"
    using count_task_result[of in_degree x n td] n by (simp add: deg1_def)
  have d: "distinct (map task_id xs)" and sub: "task_id ` set xs \<subseteq> dom deg1"
    using Cons.prems dom1 by auto
  have nf: "find (\<lambda>t. task_id t = task_id x) xs = None"
    using Cons.prems(1) by (auto simp: find_None_iff) (metis imageI)
  have ih: "fold_err (count_task td) xs deg1 =
         Inr (\<lambda>i. case find (\<lambda>t. task_id t = i) xs of
                     None \<Rightarrow> deg1 i
                   | Some t \<Rightarrow> map_option (\<lambda>n. n + ?cnt t) (deg1 i))"
    using Cons.IH[OF d sub] by (simp only: dom1)
  have "(\<lambda>i. case find (\<lambda>t. task_id t = i) xs of
                     None \<Rightarrow> deg1 i
                   | Some t \<Rightarrow> map_option (\<lambda>n. n + ?cnt t) (deg1 i)) =
        (\<lambda>i. case find (\<lambda>t. task_id t = i) (x # xs) of
                     None \<Rightarrow> in_degree i
                   | Some t \<Rightarrow> map_option (\<lambda>n. n + ?cnt t) (in_degree i))"
  proof
    fix i
    show "(case find (\<lambda>t. task_id t = i) xs of
                     None \<Rightarrow> deg1 i
                   | Some t \<Rightarrow> map_option (\<lambda>n. n + ?cnt t) (deg1 i)) =
          (case find (\<lambda>t. task_id t = i) (x # xs) of
                     None \<Rightarrow> in_degree i
                   | Some t \<Rightarrow> map_option (\<lambda>n. n + ?cnt t) (in_degree i))"
    proof (cases "i = task_id x")
      case True
      then show ?thesis using nf n by (simp add: deg1_def)
    next
      case False
      then have "deg1 i = in_degree i" by (simp add: deg1_def)
      moreover have "find (\<lambda>t. task_id t = i) (x # xs) = find (\<lambda>t. task_id t = i) xs"
        using False by auto
      ultimately show ?thesis by (simp only:)
    qed
  qed
  with ih show ?case
    by (simp only: fold_err.simps step sum.case)
qed

lemma blocking_via_dict:
  assumes "distinct (map task_id ts)"
  shows "(d \<in> dom (make_in_degree ts) \<and> (\<exists>x. make_task_dict ts d = Some x \<and> \<not> completed x))
         \<longleftrightarrow> blocking ts d"
proof
  assume "d \<in> dom (make_in_degree ts) \<and> (\<exists>x. make_task_dict ts d = Some x \<and> \<not> completed x)"
  then obtain x where "find (\<lambda>t. task_id t = d) ts = Some x" "\<not> completed x"
    using make_task_dict_apply[OF assms] by auto
  then show "blocking ts d"
    using find_id_SomeD[of d ts x] by (auto simp: blocking_def)
next
  assume "blocking ts d"
  then obtain x where x: "x \<in> set ts" "task_id x = d" "\<not> completed x"
    by (auto simp: blocking_def)
  then have "make_task_dict ts d = Some x"
    using make_task_dict_apply[OF assms, of d] find_id_Some[OF assms, of x] by simp
  then show "d \<in> dom (make_in_degree ts) \<and> (\<exists>x. make_task_dict ts d = Some x \<and> \<not> completed x)"
    using x by (auto simp: dom_make_in_degree)
qed

lemma calc_in_degrees_result:
  assumes "distinct (map task_id ts)"
  shows "calc_in_degrees ts = Inr (expected_in_degree ts)"
proof -
  have sub: "task_id ` set ts \<subseteq> dom (make_in_degree ts)"
    by (simp add: dom_make_in_degree)
  have cnt: "int (length (filter
               (\<lambda>d. d \<in> dom (make_in_degree ts) \<and> (\<exists>x. make_task_dict ts d = Some x \<and> \<not> completed x))
               (dependencies t))) = blocking_count ts t" for t
    unfolding blocking_count_def blocking_via_dict[OF assms] ..
  have "(\<lambda>i. case find (\<lambda>t. task_id t = i) ts of
                None \<Rightarrow> make_in_degree ts i
              | Some t \<Rightarrow> map_option (\<lambda>n. n + blocking_count ts t) (make_in_degree ts i)) =
        expected_in_degree ts"
  proof
    fix i
    show "(case find (\<lambda>t. task_id t = i) ts of
                None \<Rightarrow> make_in_degree ts i
              | Some t \<Rightarrow> map_option (\<lambda>n. n + blocking_count ts t) (make_in_degree ts i)) =
          expected_in_degree ts i"
    proof (cases "find (\<lambda>t. task_id t = i) ts")
      case None
      then have "i \<notin> task_id ` set ts" by (simp add: find_id_None)
      with None show ?thesis
        by (simp add: expected_in_degree_def make_in_degree_apply)
    next
      case (Some t)
      then have "i \<in> task_id ` set ts" using find_id_SomeD[of i ts t] by auto
      with Some show ?thesis
        by (simp add: expected_in_degree_def make_in_degree_apply)
    qed
  qed
  then show ?thesis
    unfolding calc_in_degrees_def
    using count_tasks_aux[OF assms sub, of "make_task_dict ts"] by (simp only: cnt)
qed

subsection \<open>The initial heap and the pass after an emission\<close>

lemma distinct_ids_ConsD:
  "distinct (map task_id (x # xs)) \<Longrightarrow> t \<in> set xs \<Longrightarrow> task_id t \<noteq> task_id x"
  by (auto simp: image_iff)

lemma entry_id_entry_of [simp]: "entry_id (entry_of t) = task_id t"
  by (simp add: entry_id_def entry_of_def)

lemma heappush_fresh:
  "entry_id e \<notin> entry_id ` set heap \<Longrightarrow> heappush heap e = Inr (e # heap)"
  by (auto simp: heappush_def entry_key_def entry_id_def image_iff)

lemma initial_heap_aux:
  assumes "distinct (map task_id xs)" and "task_id ` set xs \<subseteq> dom in_degree"
    and "\<forall>t\<in>set xs. task_id t \<notin> entry_id ` set heap"
  shows "fold_err (push_if_ready in_degree) xs heap =
         Inr (rev (map entry_of (filter (\<lambda>t. in_degree (task_id t) = Some 0) xs)) @ heap)"
  using assms
proof (induction xs arbitrary: heap)
  case Nil
  then show ?case by simp
next
  case (Cons x xs)
  from Cons.prems(2) obtain n where n: "in_degree (task_id x) = Some n" by auto
  have d: "distinct (map task_id xs)" and sub: "task_id ` set xs \<subseteq> dom in_degree"
    using Cons.prems by auto
  show ?case
  proof (cases "n = 0")
    case True
    have "task_id x \<notin> entry_id ` set heap" using Cons.prems(3) by simp
    then have step: "push_if_ready in_degree x heap = Inr (entry_of x # heap)"
      using n True by (simp add: push_if_ready_def heappush_fresh)
    have fresh: "\<forall>t\<in>set xs. task_id t \<notin> entry_id ` set (entry_of x # heap)"
      using Cons.prems(3) distinct_ids_ConsD[OF Cons.prems(1)] by simp
    show ?thesis
      using Cons.IH[OF d sub fresh] n True by (simp add: step)
  next
    case False
    then have step: "push_if_ready in_degree x heap = Inr heap"
      using n by (simp add: push_if_ready_def)
    have fresh: "\<forall>t\<in>set xs. task_id t \<notin> entry_id ` set heap"
      using Cons.prems(3) by simp
    show ?thesis
      using Cons.IH[OF d sub fresh] n False by (simp add: step)
  qed
qed

lemma initial_heap_result:
  assumes "distinct (map task_id ts)" and "task_id ` set ts \<subseteq> dom in_degree"
  shows "initial_heap ts in_degree =
         Inr (rev (map entry_of (filter (\<lambda>t. in_degree (task_id t) = Some 0) ts)))"
  unfolding initial_heap_def using initial_heap_aux[OF assms, of "[]"] by simp

lemma release_step_miss:
  "\<not> hit tid x \<Longrightarrow> release_step tid x (in_degree, heap) = Inr (in_degree, heap)"
  by (auto simp: release_step_def hit_def)

lemma release_step_hit:
  "hit tid x \<Longrightarrow> in_degree (task_id x) = Some n \<Longrightarrow>
   release_step tid x (in_degree, heap) =
     (if n = 1 then
        (case heappush heap (entry_of x) of
           Inl e \<Rightarrow> Inl e
         | Inr heap' \<Rightarrow> Inr (in_degree(task_id x \<mapsto> n - 1), heap'))
      else Inr (in_degree(task_id x \<mapsto> n - 1), heap))"
  by (auto simp: release_step_def hit_def Let_def)

lemma release_aux:
  assumes "distinct (map task_id xs)" and "task_id ` set xs \<subseteq> dom in_degree"
    and "\<forall>t\<in>set (released tid xs in_degree). task_id t \<notin> entry_id ` set heap"
  shows "fold_err (release_step tid) xs (in_degree, heap) =
         Inr (dec_in_degree tid xs in_degree, rev (map entry_of (released tid xs in_degree)) @ heap)"
  using assms
proof (induction xs arbitrary: in_degree heap)
  case Nil
  then show ?case by (simp add: dec_in_degree_def released_def)
next
  case (Cons x xs)
  from Cons.prems(2) obtain n where n: "in_degree (task_id x) = Some n" by auto
  have d: "distinct (map task_id xs)" using Cons.prems(1) by simp
  have nf: "find (\<lambda>t. task_id t = task_id x) xs = None"
    using Cons.prems(1) by (auto simp: find_None_iff) (metis imageI)
  have notx: "task_id t \<noteq> task_id x" if "t \<in> set xs" for t
    using distinct_ids_ConsD[OF Cons.prems(1) that] .
  show ?case
  proof (cases "hit tid x")
    case False
    then have step: "release_step tid x (in_degree, heap) = Inr (in_degree, heap)"
      by (rule release_step_miss)
    have rel: "released tid (x # xs) in_degree = released tid xs in_degree"
      using False by (simp add: released_def)
    have dec: "dec_in_degree tid (x # xs) in_degree = dec_in_degree tid xs in_degree"
      using False nf by (auto simp: dec_in_degree_def fun_eq_iff)
    have "fold_err (release_step tid) xs (in_degree, heap) =
         Inr (dec_in_degree tid xs in_degree, rev (map entry_of (released tid xs in_degree)) @ heap)"
      using Cons.IH[OF d, of in_degree heap] Cons.prems(2,3) rel by simp
    then show ?thesis by (simp add: step rel dec)
  next
    case True
    define deg1 where "deg1 = in_degree(task_id x \<mapsto> n - 1)"
    have dom1: "dom deg1 = dom in_degree" using n by (auto simp: deg1_def)
    have deg1_other: "deg1 (task_id t) = in_degree (task_id t)" if "t \<in> set xs" for t
      using notx[OF that] by (simp add: deg1_def)
    have rel_xs: "released tid xs deg1 = released tid xs in_degree"
      unfolding released_def by (rule filter_cong) (auto simp: deg1_other)
    have dec: "dec_in_degree tid xs deg1 = dec_in_degree tid (x # xs) in_degree"
    proof
      fix i
      show "dec_in_degree tid xs deg1 i = dec_in_degree tid (x # xs) in_degree i"
      proof (cases "i = task_id x")
        case True
        then show ?thesis using nf n \<open>hit tid x\<close> by (simp add: dec_in_degree_def deg1_def)
      next
        case False
        then have "deg1 i = in_degree i" by (simp add: deg1_def)
        moreover have "find (\<lambda>t. task_id t = i) (x # xs) = find (\<lambda>t. task_id t = i) xs"
          using False by auto
        ultimately show ?thesis by (simp only: dec_in_degree_def)
      qed
    qed
    show ?thesis
    proof (cases "n = 1")
      case n1: True
      have relx: "released tid (x # xs) in_degree = x # released tid xs in_degree"
        using True n n1 by (simp add: released_def)
      have "task_id x \<notin> entry_id ` set heap"
        using Cons.prems(3) relx by simp
      then have step: "release_step tid x (in_degree, heap) = Inr (deg1, entry_of x # heap)"
        using release_step_hit[of tid x in_degree n heap] True n n1 by (simp add: heappush_fresh deg1_def)
      have fresh: "\<forall>t\<in>set (released tid xs deg1). task_id t \<notin> entry_id ` set (entry_of x # heap)"
      proof
        fix t assume t: "t \<in> set (released tid xs deg1)"
        then have "t \<in> set xs" by (simp add: released_def)
        then have "task_id t \<noteq> task_id x" by (rule notx)
        moreover have "task_id t \<notin> entry_id ` set heap"
          using Cons.prems(3) t relx rel_xs by simp
        ultimately show "task_id t \<notin> entry_id ` set (entry_of x # heap)" by simp
      qed
      have "fold_err (release_step tid) xs (deg1, entry_of x # heap) =
            Inr (dec_in_degree tid xs deg1, rev (map entry_of (released tid xs deg1)) @ entry_of x # heap)"
        using Cons.IH[OF d, of deg1 "entry_of x # heap"] Cons.prems(2) dom1 fresh by simp
      then show ?thesis by (simp add: step dec rel_xs relx)
    next
      case n1: False
      have relx: "released tid (x # xs) in_degree = released tid xs in_degree"
        using n n1 by (simp add: released_def)
      have step: "release_step tid x (in_degree, heap) = Inr (deg1, heap)"
        using release_step_hit[of tid x in_degree n heap] True n n1 by (simp add: deg1_def)
      have fresh: "\<forall>t\<in>set (released tid xs deg1). task_id t \<notin> entry_id ` set heap"
        using Cons.prems(3) relx rel_xs by simp
      have "fold_err (release_step tid) xs (deg1, heap) =
            Inr (dec_in_degree tid xs deg1, rev (map entry_of (released tid xs deg1)) @ heap)"
        using Cons.IH[OF d, of deg1 heap] Cons.prems(2) dom1 fresh by simp
      then show ?thesis by (simp add: step dec rel_xs relx)
    qed
  qed
qed

lemma release_result:
  assumes "distinct (map task_id ts)" and "task_id ` set ts \<subseteq> dom in_degree"
    and "\<forall>t\<in>set (released tid ts in_degree). task_id t \<notin> entry_id ` set heap"
  shows "release ts tid (in_degree, heap) =
         Inr (dec_in_degree tid ts in_degree, rev (map entry_of (released tid ts in_degree)) @ heap)"
  unfolding release_def by (rule release_aux[OF assms])

section \<open>The loop invariant\<close>

lemma main_loop_rule:
  assumes init: "I in_degree heap sorted_tasks"
    and step: "\<And>in_degree heap sorted_tasks k tid t heap1.
        \<lbrakk>I in_degree heap sorted_tasks; heap \<noteq> []; heappop heap = ((k, tid, t), heap1)\<rbrakk>
        \<Longrightarrow> \<exists>in_degree' heap'. release ts tid (in_degree, heap1) = Inr (in_degree', heap')
              \<and> I in_degree' heap' (sorted_tasks @ [t])"
  shows "\<exists>out in_degree'. main_loop ts in_degree heap sorted_tasks = Inr out \<and> I in_degree' [] out"
  using init
proof (induction "length heap + waiting ts in_degree" arbitrary: in_degree heap sorted_tasks
        rule: less_induct)
  case less
  show ?case
  proof (cases "heap = []")
    case True
    then show ?thesis using less.prems by (auto simp: main_loop.simps)
  next
    case False
    obtain k tid t heap1 where pop: "heappop heap = ((k, tid, t), heap1)"
      by (metis prod_cases3 surj_pair)
    from step[OF less.prems False pop] obtain in_degree' heap'
      where rel: "release ts tid (in_degree, heap1) = Inr (in_degree', heap')"
        and inv: "I in_degree' heap' (sorted_tasks @ [t])" by blast
    have "length heap' + waiting ts in_degree' < length heap + waiting ts in_degree"
      using main_loop_decreases[OF False pop[symmetric] rel] .
    from less.hyps[OF this inv]
    obtain out d where "main_loop ts in_degree' heap' (sorted_tasks @ [t]) = Inr out" "I d [] out"
      by blast
    then show ?thesis
      using False pop rel by (subst main_loop.simps) auto
  qed
qed

lemma heappop_props:
  assumes "heap \<noteq> []" and "heappop heap = (e, heap1)"
  shows "e \<in> set heap" and "heap1 = remove1 e heap"
    and "\<forall>e' \<in> set heap. entry_key e \<le> entry_key e'"
proof -
  from assms(2) have e: "e = arg_min_list entry_key heap" and h: "heap1 = remove1 e heap"
    by (auto simp: heappop_def Let_def)
  show "e \<in> set heap" unfolding e by (rule arg_min_list_in[OF assms(1)])
  show "heap1 = remove1 e heap" by (rule h)
  have "entry_key e = Min (entry_key ` set heap)"
    unfolding e by (rule f_arg_min_list_f[OF assms(1)])
  then show "\<forall>e' \<in> set heap. entry_key e \<le> entry_key e'" by simp
qed

lemma dom_dec_in_degree: "dom (dec_in_degree tid ts in_degree) = dom in_degree"
  by (auto simp: dec_in_degree_def dom_def split: option.splits if_splits)

lemma dec_in_degree_apply:
  assumes "distinct (map task_id ts)" and "t \<in> set ts"
  shows "dec_in_degree tid ts in_degree (task_id t) =
         (if hit tid t then map_option (\<lambda>n. n - 1) (in_degree (task_id t)) else in_degree (task_id t))"
  by (simp add: dec_in_degree_def find_id_Some[OF assms])

lemma dec_in_degree_bounds:
  assumes "in_degree i = Some n"
  shows "\<exists>n'. dec_in_degree tid ts in_degree i = Some n' \<and> n - 1 \<le> n' \<and> n' \<le> n"
  using assms by (auto simp: dec_in_degree_def split: option.splits)

lemma map_remove1_distinct:
  "distinct (map f xs) \<Longrightarrow> e \<in> set xs \<Longrightarrow> map f (remove1 e xs) = remove1 (f e) (map f xs)"
  by (induction xs) (auto simp: image_iff)

lemma released_subset: "set (released tid ts in_degree) \<subseteq> set ts"
  by (auto simp: released_def)

lemma released_props:
  "t \<in> set (released tid ts in_degree) \<Longrightarrow> hit tid t \<and> in_degree (task_id t) = Some 1"
  by (auto simp: released_def)

lemma distinct_released:
  "distinct (map task_id ts) \<Longrightarrow> distinct (map task_id (released tid ts in_degree))"
  unfolding released_def by (rule distinct_map_filter)

lemma loop_inv_step:
  assumes inv: "loop_inv ts in_degree heap sorted_tasks"
    and ne: "heap \<noteq> []" and pop: "heappop heap = ((k, tid, t), heap1)"
  shows "release ts tid (in_degree, heap1) =
           Inr (dec_in_degree tid ts in_degree,
                rev (map entry_of (released tid ts in_degree)) @ heap1)"
    and "loop_inv ts (dec_in_degree tid ts in_degree)
           (rev (map entry_of (released tid ts in_degree)) @ heap1) (sorted_tasks @ [t])"
    and "t \<in> set ts" and "tid = task_id t" and "(k, tid, t) \<in> set heap"
proof -
  let ?e = "(k, tid, t)"
  let ?R = "released tid ts in_degree"
  from inv have dist: "distinct (map task_id ts)" and dom: "dom in_degree = task_id ` set ts"
    and ent: "\<forall>e \<in> set heap. entry_task e \<in> set ts \<and> e = entry_of (entry_task e)"
    and sub: "set sorted_tasks \<subseteq> set ts"
    and d2: "distinct (map entry_id heap @ map task_id sorted_tasks)"
    and low: "\<forall>i \<in> entry_id ` set heap \<union> task_id ` set sorted_tasks. \<exists>n. in_degree i = Some n \<and> n \<le> 0"
    by (auto simp: loop_inv_def)
  have mem: "?e \<in> set heap" and h1: "heap1 = remove1 ?e heap"
    using heappop_props[OF ne pop] by auto
  show "(k, tid, t) \<in> set heap" by (rule mem)
  from ent mem have t: "t \<in> set ts" and e: "?e = entry_of t"
    by (auto simp: entry_task_def)
  show "t \<in> set ts" by (rule t)
  from e show tid: "tid = task_id t" by (simp add: entry_of_def)
  have eid: "entry_id ?e = tid" by (simp add: entry_id_def)
  have ids1: "map entry_id heap1 = remove1 tid (map entry_id heap)"
    unfolding h1 using map_remove1_distinct[of entry_id heap ?e] d2 mem eid by simp
  have dh: "distinct (map entry_id heap)" using d2 by simp
  have set1: "entry_id ` set heap1 = entry_id ` set heap - {tid}"
    using ids1 dh by (metis set_map set_remove1_eq)
  have tid_heap: "tid \<in> entry_id ` set heap" using mem eid by force
  have tid_sorted: "tid \<notin> task_id ` set sorted_tasks"
    using d2 tid_heap by auto
  have rel_fresh: "task_id x \<notin> entry_id ` set heap \<union> task_id ` set sorted_tasks"
    if "x \<in> set ?R" for x
  proof
    assume "task_id x \<in> entry_id ` set heap \<union> task_id ` set sorted_tasks"
    with low obtain n where "in_degree (task_id x) = Some n" "n \<le> 0" by blast
    with released_props[OF that] show False by simp
  qed
  have fresh: "\<forall>x\<in>set ?R. task_id x \<notin> entry_id ` set heap1"
  proof
    fix x assume "x \<in> set ?R"
    from rel_fresh[OF this] have "task_id x \<notin> entry_id ` set heap" by simp
    then show "task_id x \<notin> entry_id ` set heap1" unfolding set1 by simp
  qed
  have domsub: "task_id ` set ts \<subseteq> dom in_degree" using dom by simp
  show "release ts tid (in_degree, heap1) =
          Inr (dec_in_degree tid ts in_degree, rev (map entry_of ?R) @ heap1)"
    by (rule release_result[OF dist domsub fresh])
  have ent': "\<forall>e \<in> set (rev (map entry_of ?R) @ heap1).
               entry_task e \<in> set ts \<and> e = entry_of (entry_task e)"
  proof
    fix e' assume "e' \<in> set (rev (map entry_of ?R) @ heap1)"
    then consider x where "x \<in> set ?R" "e' = entry_of x" | "e' \<in> set heap1" by auto
    then show "entry_task e' \<in> set ts \<and> e' = entry_of (entry_task e')"
    proof cases
      case 1
      then show ?thesis using released_subset[of tid ts in_degree]
        by (auto simp: entry_task_def entry_of_def)
    next
      case 2
      then have "e' \<in> set heap" using set_remove1_subset[of ?e heap] h1 by blast
      with ent show ?thesis by blast
    qed
  qed
  have ids_new: "map entry_id (rev (map entry_of ?R) @ heap1) =
                 rev (map task_id ?R) @ remove1 tid (map entry_id heap)"
    by (simp add: ids1 rev_map comp_def)
  have d_new: "distinct (map entry_id (rev (map entry_of ?R) @ heap1) @ map task_id (sorted_tasks @ [t]))"
  proof -
    let ?A = "rev (map task_id ?R)" and ?B = "remove1 tid (map entry_id heap)"
    let ?C = "map task_id sorted_tasks @ [tid]"
    have sB: "set ?B = entry_id ` set heap - {tid}" using dh by (simp add: set_remove1_eq)
    have sA: "set ?A = task_id ` set ?R" by simp
    have sC: "set ?C = insert tid (task_id ` set sorted_tasks)" by simp
    have a: "distinct ?A"
      using distinct_released[OF dist, of tid in_degree] by (simp only: distinct_rev)
    have b: "distinct ?B" using dh by simp
    have c: "distinct ?C"
      using d2 tid_sorted by simp
    have ab: "set ?A \<inter> set ?B = {}"
      unfolding sA sB using rel_fresh by blast
    have rc: "set ?A \<inter> set ?C = {}"
      unfolding sA sC using rel_fresh tid_heap by blast
    have hs: "entry_id ` set heap \<inter> task_id ` set sorted_tasks = {}"
      using d2 by simp
    have bc: "set ?B \<inter> set ?C = {}"
      unfolding sB sC using hs by blast
    have "distinct ((?A @ ?B) @ ?C)"
      using a b c ab rc bc by (simp only: distinct_append set_append Int_Un_distrib2) simp
    moreover have "map task_id (sorted_tasks @ [t]) = ?C" by (simp add: tid)
    ultimately show ?thesis
      by (simp only: ids_new)
  qed
  have low': "\<forall>i \<in> entry_id ` set (rev (map entry_of ?R) @ heap1) \<union> task_id ` set (sorted_tasks @ [t]).
               \<exists>n. dec_in_degree tid ts in_degree i = Some n \<and> n \<le> 0"
  proof
    fix i assume i: "i \<in> entry_id ` set (rev (map entry_of ?R) @ heap1) \<union> task_id ` set (sorted_tasks @ [t])"
    have "entry_id ` set (rev (map entry_of ?R) @ heap1) = task_id ` set ?R \<union> (entry_id ` set heap - {tid})"
      using set1 by (simp add: image_Un image_image)
    moreover have "task_id ` set (sorted_tasks @ [t]) = insert tid (task_id ` set sorted_tasks)"
      using tid by simp
    ultimately have "i \<in> task_id ` set ?R \<or> i \<in> entry_id ` set heap \<union> task_id ` set sorted_tasks"
      using i tid_heap by blast
    then consider x where "x \<in> set ?R" "i = task_id x"
      | "i \<in> entry_id ` set heap \<union> task_id ` set sorted_tasks"
      by blast
    then show "\<exists>n. dec_in_degree tid ts in_degree i = Some n \<and> n \<le> 0"
    proof cases
      case 1
      then have "x \<in> set ts" "hit tid x" "in_degree (task_id x) = Some 1"
        using released_subset[of tid ts in_degree] released_props[of x tid ts in_degree] by auto
      then show ?thesis using 1 dec_in_degree_apply[OF dist, of x tid in_degree] by simp
    next
      case 2
      with low obtain n where "in_degree i = Some n" "n \<le> 0" by blast
      then show ?thesis using dec_in_degree_bounds[of in_degree i n tid ts] by auto
    qed
  qed
  show "loop_inv ts (dec_in_degree tid ts in_degree)
           (rev (map entry_of ?R) @ heap1) (sorted_tasks @ [t])"
    unfolding loop_inv_def
    using dist dom dom_dec_in_degree[of tid ts in_degree] ent' sub t d_new low'
    by (intro conjI) simp_all
qed

section \<open>The result is a permutation of the working set\<close>

lemma dom_expected_in_degree: "dom (expected_in_degree ts) = task_id ` set ts"
proof -
  have "i \<in> dom (expected_in_degree ts) \<longleftrightarrow> i \<in> task_id ` set ts" for i
    using find_id_None[of i ts] by (auto simp: expected_in_degree_def dom_def)
  then show ?thesis by blast
qed

lemma expected_in_degree_apply:
  "distinct (map task_id ts) \<Longrightarrow> t \<in> set ts \<Longrightarrow>
   expected_in_degree ts (task_id t) = Some (blocking_count ts t)"
  by (simp add: expected_in_degree_def find_id_Some)

lemma loop_inv_initial:
  assumes "distinct (map task_id ts)"
  shows "loop_inv ts (expected_in_degree ts) (rev (map entry_of (ready_tasks ts))) []"
proof -
  have "distinct (map task_id (ready_tasks ts))"
    unfolding ready_tasks_def by (rule distinct_map_filter[OF assms])
  then have "distinct (map entry_id (rev (map entry_of (ready_tasks ts))))"
    by (simp add: rev_map[symmetric] comp_def)
  moreover have "\<forall>e \<in> set (rev (map entry_of (ready_tasks ts))).
                  entry_task e \<in> set ts \<and> e = entry_of (entry_task e)"
    by (auto simp: ready_tasks_def entry_task_def entry_of_def)
  moreover have "\<forall>i \<in> entry_id ` set (rev (map entry_of (ready_tasks ts))).
                  \<exists>n. expected_in_degree ts i = Some n \<and> n \<le> 0"
    by (auto simp: ready_tasks_def)
  ultimately show ?thesis
    using assms by (simp add: loop_inv_def dom_expected_in_degree)
qed

lemma main_loop_total:
  assumes "loop_inv ts in_degree heap sorted_tasks"
  shows "\<exists>out in_degree'. main_loop ts in_degree heap sorted_tasks = Inr out
           \<and> loop_inv ts in_degree' [] out"
proof (rule main_loop_rule[where I = "loop_inv ts", OF assms])
  fix in_degree heap sorted_tasks k tid t heap1
  assume "loop_inv ts in_degree heap sorted_tasks" "heap \<noteq> []"
    "heappop heap = ((k, tid, t), heap1)"
  from loop_inv_step(1,2)[OF this]
  show "\<exists>in_degree' heap'. release ts tid (in_degree, heap1) = Inr (in_degree', heap')
          \<and> loop_inv ts in_degree' heap' (sorted_tasks @ [t])"
    by blast
qed

lemma mset_split_by_emitted:
  assumes "distinct xs" and "distinct ys" and "set ys \<subseteq> set xs"
  shows "mset ys + mset (filter (\<lambda>x. x \<notin> set ys) xs) = mset xs"
proof -
  have "set (filter (\<lambda>x. x \<in> set ys) xs) = set ys" using assms(3) by auto
  moreover have "distinct (filter (\<lambda>x. x \<in> set ys) xs)" using assms(1) by simp
  ultimately have "mset ys = mset (filter (\<lambda>x. x \<in> set ys) xs)"
    using assms(2) set_eq_iff_mset_eq_distinct by blast
  then show ?thesis by (simp add: mset_filter)
qed

lemma distinct_ids_imp_distinct: "distinct (map task_id xs) \<Longrightarrow> distinct xs"
  by (simp add: distinct_map)

lemma topological_sort_total:
  assumes "distinct (map task_id ts)"
  shows "\<exists>sorted_tasks in_degree'.
           main_loop ts (expected_in_degree ts) (rev (map entry_of (ready_tasks ts))) [] = Inr sorted_tasks
         \<and> loop_inv ts in_degree' [] sorted_tasks
         \<and> topological_sort_with_priority ts =
             Inr (sorted_tasks @ sort_key (\<lambda>x. - priority_score x)
                                    (filter (\<lambda>t. t \<notin> set sorted_tasks) ts))"
proof -
  have ih: "initial_heap ts (expected_in_degree ts) = Inr (rev (map entry_of (ready_tasks ts)))"
    unfolding ready_tasks_def
    by (rule initial_heap_result[OF assms]) (simp add: dom_expected_in_degree)
  from main_loop_total[OF loop_inv_initial[OF assms]] obtain out d
    where out: "main_loop ts (expected_in_degree ts) (rev (map entry_of (ready_tasks ts))) [] = Inr out"
      and inv: "loop_inv ts d [] out" by blast
  show ?thesis
    using out inv
    by (auto simp: topological_sort_with_priority_def calc_in_degrees_result[OF assms] ih)
qed

lemma topological_sort_permutation:
  assumes "distinct (map task_id ts)"
  shows "\<exists>out. topological_sort_with_priority ts = Inr out \<and> mset out = mset ts"
proof -
  from topological_sort_total[OF assms] obtain sorted_tasks d
    where inv: "loop_inv ts d [] sorted_tasks"
      and res: "topological_sort_with_priority ts =
             Inr (sorted_tasks @ sort_key (\<lambda>x. - priority_score x)
                                    (filter (\<lambda>t. t \<notin> set sorted_tasks) ts))"
    by blast
  from inv have sub: "set sorted_tasks \<subseteq> set ts" and ds: "distinct (map task_id sorted_tasks)"
    by (auto simp: loop_inv_def)
  have "mset sorted_tasks + mset (filter (\<lambda>x. x \<notin> set sorted_tasks) ts) = mset ts"
    by (rule mset_split_by_emitted[OF distinct_ids_imp_distinct[OF assms]
          distinct_ids_imp_distinct[OF ds] sub])
  then show ?thesis using res by simp
qed

lemma task_id_rescore [simp]: "task_id (rescore now t) = task_id t"
  by (simp add: rescore_def calculate_priority_score_def Let_def)

lemma completed_rescore [simp]: "completed (rescore now t) = completed t"
  by (simp add: rescore_def calculate_priority_score_def Let_def)

lemma dependencies_rescore [simp]: "dependencies (rescore now t) = dependencies t"
  by (simp add: rescore_def calculate_priority_score_def Let_def)

lemma manager_ok_ids: "manager_ok m \<Longrightarrow> map task_id (map snd (tasks m)) = map fst (tasks m)"
  by (auto simp: manager_ok_def list_all_iff)

lemma distinct_working_set:
  assumes "manager_ok m"
  shows "distinct (map task_id (working_set now include_completed m))"
proof -
  have "distinct (map fst (tasks m))" using assms by (simp add: manager_ok_def)
  then have "distinct (map task_id (map snd (tasks m)))"
    by (simp only: manager_ok_ids[OF assms])
  then have "distinct (map task_id (filter (in_working_set include_completed) (map snd (tasks m))))"
    by (rule distinct_map_filter)
  then show ?thesis by (simp add: working_set_def comp_def)
qed

section \<open>Dependencies that cannot block\<close>

lemma working_set_member:
  assumes "t \<in> set (working_set now include_completed m)"
  shows "\<exists>k t0. (k, t0) \<in> set (tasks m) \<and> in_working_set include_completed t0 \<and> t = rescore now t0"
  using assms by (fastforce simp: working_set_def)

lemma blocking_working_set:
  assumes ok: "manager_ok m" and b: "blocking (working_set now include_completed m) d"
  shows "\<exists>x. map_of (tasks m) d = Some x \<and> \<not> completed x"
proof -
  from b obtain t where t: "t \<in> set (working_set now include_completed m)"
    and id: "task_id t = d" and nc: "\<not> completed t"
    by (auto simp: blocking_def)
  from working_set_member[OF t] obtain k t0 where kt: "(k, t0) \<in> set (tasks m)"
    and eq: "t = rescore now t0" by blast
  from ok kt have "task_id t0 = k" by (auto simp: manager_ok_def list_all_iff)
  moreover from ok kt have "map_of (tasks m) k = Some t0" by (simp add: manager_ok_def)
  ultimately show ?thesis using id nc eq by auto
qed

lemma ready_when_no_blocking:
  assumes d: "distinct (map task_id ts)" and t: "t \<in> set ts"
    and nb: "\<forall>d \<in> set (dependencies t). \<not> blocking ts d"
  shows "\<exists>in_degree heap. calc_in_degrees ts = Inr in_degree \<and> in_degree (task_id t) = Some 0
           \<and> initial_heap ts in_degree = Inr heap \<and> entry_of t \<in> set heap"
proof -
  have "filter (blocking ts) (dependencies t) = []" using nb by (simp add: filter_empty_conv)
  then have z: "expected_in_degree ts (task_id t) = Some 0"
    using expected_in_degree_apply[OF d t] by (simp add: blocking_count_def)
  have ih: "initial_heap ts (expected_in_degree ts) = Inr (rev (map entry_of (ready_tasks ts)))"
    unfolding ready_tasks_def
    by (rule initial_heap_result[OF d]) (simp add: dom_expected_in_degree)
  have "entry_of t \<in> set (rev (map entry_of (ready_tasks ts)))"
    using t z by (simp add: ready_tasks_def)
  then show ?thesis
    using calc_in_degrees_result[OF d] z ih by blast
qed

section \<open>The order of the ready heap\<close>

lemma appears_before_append1: "appears_before a b xs \<Longrightarrow> appears_before a b (xs @ ys)"
  by (induction xs) auto

lemma appears_before_append2: "appears_before a b ys \<Longrightarrow> appears_before a b (xs @ ys)"
  by (induction xs) auto

lemma appears_before_split: "a \<in> set xs \<Longrightarrow> b \<in> set ys \<Longrightarrow> appears_before a b (xs @ ys)"
  by (induction xs) auto

lemma appears_before_iff:
  "appears_before a b xs \<longleftrightarrow> (\<exists>pre mid post. xs = pre @ a # mid @ b # post)"
proof
  show "appears_before a b xs \<Longrightarrow> \<exists>pre mid post. xs = pre @ a # mid @ b # post"
  proof (induction xs)
    case Nil
    then show ?case by simp
  next
    case (Cons x xs)
    show ?case
    proof (cases "x = a \<and> b \<in> set xs")
      case True
      then obtain mid post where "xs = mid @ b # post" by (auto simp: in_set_conv_decomp)
      with True have "x # xs = [] @ a # mid @ b # post" by simp
      then show ?thesis by blast
    next
      case False
      with Cons.prems have "appears_before a b xs" by auto
      from Cons.IH[OF this] obtain pre mid post where "xs = pre @ a # mid @ b # post" by blast
      then have "x # xs = (x # pre) @ a # mid @ b # post" by simp
      then show ?thesis by blast
    qed
  qed
next
  assume "\<exists>pre mid post. xs = pre @ a # mid @ b # post"
  then obtain pre mid post where "xs = pre @ a # mid @ b # post" by blast
  then show "appears_before a b xs"
    using appears_before_append2[of a b "a # mid @ b # post" pre] by simp
qed

lemma loop_reach_inv:
  assumes "distinct (map task_id ts)" and "loop_reach ts in_degree heap sorted_tasks"
  shows "loop_inv ts in_degree heap sorted_tasks"
  using assms(2)
proof (induction rule: loop_reach.induct)
  case (start in_degree heap)
  have ih: "initial_heap ts (expected_in_degree ts) = Inr (rev (map entry_of (ready_tasks ts)))"
    unfolding ready_tasks_def
    by (rule initial_heap_result[OF assms(1)]) (simp add: dom_expected_in_degree)
  from start have "in_degree = expected_in_degree ts"
    by (simp add: calc_in_degrees_result[OF assms(1)])
  moreover with start ih have "heap = rev (map entry_of (ready_tasks ts))" by simp
  ultimately show ?case using loop_inv_initial[OF assms(1)] by simp
next
  case (pass in_degree heap sorted_tasks k tid t heap1 in_degree' heap')
  from loop_inv_step(1,2)[OF pass.IH pass.hyps(2,3)] pass.hyps(4)
  show ?case by simp
qed

lemma loop_reach_main_loop:
  assumes "loop_reach ts in_degree heap sorted_tasks"
    and "calc_in_degrees ts = Inr in_degree0" and "initial_heap ts in_degree0 = Inr heap0"
  shows "main_loop ts in_degree heap sorted_tasks = main_loop ts in_degree0 heap0 []"
  using assms
proof (induction rule: loop_reach.induct)
  case (start in_degree heap)
  then show ?case by simp
next
  case (pass in_degree heap sorted_tasks k tid t heap1 in_degree' heap')
  have "main_loop ts in_degree heap sorted_tasks = main_loop ts in_degree' heap' (sorted_tasks @ [t])"
    using pass.hyps(2,3,4) by (subst main_loop.simps) simp
  then show ?case using pass.IH[OF pass.prems] by simp
qed

lemma entry_key_less:
  assumes "a = entry_of (entry_task a)" and "b = entry_of (entry_task b)"
    and "priority_score (entry_task b) < priority_score (entry_task a)
         \<or> (priority_score (entry_task a) = priority_score (entry_task b) \<and> entry_id a < entry_id b)"
  shows "entry_key a < entry_key b"
proof -
  have "fst a = - priority_score (entry_task a)" "fst b = - priority_score (entry_task b)"
    using assms(1,2) by (metis entry_of_def fst_conv)+
  then show ?thesis
    using assms(3) by (auto simp: entry_key_def entry_id_def less_prod_def)
qed

lemma order_inv_step:
  assumes inv: "order_inv ts a b in_degree heap sorted_tasks"
    and lt: "entry_key a < entry_key b"
    and ne: "heap \<noteq> []" and pop: "heappop heap = ((k, tid, t), heap1)"
  shows "\<exists>in_degree' heap'. release ts tid (in_degree, heap1) = Inr (in_degree', heap')
           \<and> order_inv ts a b in_degree' heap' (sorted_tasks @ [t])"
proof -
  let ?heap' = "rev (map entry_of (released tid ts in_degree)) @ heap1"
  let ?deg' = "dec_in_degree tid ts in_degree"
  from inv have li: "loop_inv ts in_degree heap sorted_tasks" by (simp add: order_inv_def)
  note st = loop_inv_step[OF li ne pop]
  have h1: "heap1 = remove1 (k, tid, t) heap"
    and least: "\<forall>e' \<in> set heap. entry_key (k, tid, t) \<le> entry_key e'"
    using heappop_props[OF ne pop] by auto
  have keep: "e \<in> set ?heap'" if "e \<in> set heap" "e \<noteq> (k, tid, t)" for e
    using that h1 by simp
  have tid: "tid = task_id t" by (rule st(4))
  from inv consider
    (both) "a \<in> set heap" "b \<in> set heap"
    | (one) "entry_id a \<in> task_id ` set sorted_tasks" "b \<in> set heap"
    | (past) "appears_before (entry_id a) (entry_id b) (map task_id sorted_tasks)"
    by (auto simp: order_inv_def)
  then have "(a \<in> set ?heap' \<and> b \<in> set ?heap')
      \<or> (entry_id a \<in> task_id ` set (sorted_tasks @ [t]) \<and> b \<in> set ?heap')
      \<or> appears_before (entry_id a) (entry_id b) (map task_id (sorted_tasks @ [t]))"
  proof cases
    case both
    have nb: "b \<noteq> (k, tid, t)"
    proof
      assume "b = (k, tid, t)"
      with least both(1) have "entry_key b \<le> entry_key a" by blast
      with lt show False by simp
    qed
    show ?thesis
    proof (cases "a = (k, tid, t)")
      case True
      then have "entry_id a = task_id t" using tid by (simp add: entry_id_def)
      then show ?thesis using keep[OF both(2) nb] by simp
    next
      case False
      then show ?thesis using keep[OF both(1) False] keep[OF both(2) nb] by simp
    qed
  next
    case one
    show ?thesis
    proof (cases "b = (k, tid, t)")
      case True
      then have "entry_id b = task_id t" using tid by (simp add: entry_id_def)
      then have "appears_before (entry_id a) (entry_id b) (map task_id sorted_tasks @ [task_id t])"
        using one(1) appears_before_split[of "entry_id a" "map task_id sorted_tasks" "entry_id b" "[task_id t]"]
        by simp
      then show ?thesis by simp
    next
      case False
      then show ?thesis using keep[OF one(2) False] one(1) by simp
    qed
  next
    case past
    then show ?thesis
      using appears_before_append1[of "entry_id a" "entry_id b" "map task_id sorted_tasks" "[task_id t]"]
      by simp
  qed
  then have "order_inv ts a b ?deg' ?heap' (sorted_tasks @ [t])"
    using st(2) by (simp add: order_inv_def)
  then show ?thesis using st(1) by blast
qed

lemma ready_pair_order:
  assumes d: "distinct (map task_id ts)"
    and reach: "loop_reach ts in_degree heap sorted_tasks"
    and a: "a \<in> set heap" and b: "b \<in> set heap"
    and pr: "priority_score (entry_task b) < priority_score (entry_task a)
         \<or> (priority_score (entry_task a) = priority_score (entry_task b) \<and> entry_id a < entry_id b)"
  shows "\<exists>out. topological_sort_with_priority ts = Inr out
           \<and> appears_before (entry_id a) (entry_id b) (map task_id out)"
proof -
  have li: "loop_inv ts in_degree heap sorted_tasks" by (rule loop_reach_inv[OF d reach])
  then have "a = entry_of (entry_task a)" "b = entry_of (entry_task b)"
    using a b by (auto simp: loop_inv_def)
  then have lt: "entry_key a < entry_key b" using pr by (rule entry_key_less)
  have oi: "order_inv ts a b in_degree heap sorted_tasks"
    using li a b by (simp add: order_inv_def)
  have "\<exists>out in_degree'. main_loop ts in_degree heap sorted_tasks = Inr out
          \<and> order_inv ts a b in_degree' [] out"
    by (rule main_loop_rule[where I = "order_inv ts a b", OF oi]) (rule order_inv_step[OF _ lt])
  then obtain out1 where out1: "main_loop ts in_degree heap sorted_tasks = Inr out1"
    and ab: "appears_before (entry_id a) (entry_id b) (map task_id out1)"
    by (auto simp: order_inv_def)
  have c: "calc_in_degrees ts = Inr (expected_in_degree ts)" by (rule calc_in_degrees_result[OF d])
  have ih: "initial_heap ts (expected_in_degree ts) = Inr (rev (map entry_of (ready_tasks ts)))"
    unfolding ready_tasks_def
    by (rule initial_heap_result[OF d]) (simp add: dom_expected_in_degree)
  have "main_loop ts (expected_in_degree ts) (rev (map entry_of (ready_tasks ts))) [] = Inr out1"
    using loop_reach_main_loop[OF reach c ih] out1 by simp
  then have "topological_sort_with_priority ts =
        Inr (out1 @ sort_key (\<lambda>x. - priority_score x) (filter (\<lambda>t. t \<notin> set out1) ts))"
    by (simp add: topological_sort_with_priority_def c ih)
  then show ?thesis
    using appears_before_append1[OF ab] by simp
qed

lemma mset_pair_cases:
  assumes "mset xs = {#a, b#}"
  shows "xs = [a, b] \<or> xs = [b, a]"
proof -
  from assms have "length xs = 2" by (metis size_mset size_add_mset size_empty numeral_2_eq_2)
  then obtain x y where xs: "xs = [x, y]"
    by (cases xs; cases "tl xs") (auto simp: numeral_2_eq_2)
  with assms have "{#x, y#} = {#a, b#}" by simp
  then have "(x = a \<and> y = b) \<or> (x = b \<and> y = a)"
    by (auto simp: add_eq_conv_ex)
  with xs show ?thesis by auto
qed

lemma timedelta_days_nonneg: "0 \<le> delta \<Longrightarrow> 0 \<le> timedelta_days delta"
  by (simp add: timedelta_days_def)

lemma rescore_no_deadline:
  assumes "deadline t = None" and "created_at t \<le> now"
  shows "urgency t * 10 \<le> priority_score (rescore now t)"
    and "priority_score (rescore now t) \<le> urgency t * 10 + 20"
  using assms timedelta_days_nonneg[of "now - created_at t"]
  by (auto simp: rescore_def calculate_priority_score_def Let_def)

lemma two_independent_tasks:
  assumes ok: "manager_ok m" and two: "mset (map snd (tasks m)) = {#A, B#}"
    and urg: "urgency A = 5" "urgency B = 9"
    and dl: "deadline A = None" "deadline B = None"
    and nc: "\<not> completed A" "\<not> completed B"
    and cr: "created_at A \<le> now" "created_at B \<le> now"
    and dA: "set (dependencies A) \<inter> {task_id A, task_id B} = {}"
    and dB: "set (dependencies B) \<inter> {task_id A, task_id B} = {}"
  shows "fst (get_sorted_tasks now False m) = Inr [rescore now B, rescore now A]"
proof -
  let ?A = "rescore now A" and ?B = "rescore now B"
  let ?ts = "working_set now False m"
  have d: "distinct (map task_id ?ts)" by (rule distinct_working_set[OF ok])
  from mset_pair_cases[OF two] have ts: "?ts = [?A, ?B] \<or> ?ts = [?B, ?A]"
    using nc by (auto simp: working_set_def in_working_set_def)
  then have set_ts: "set ?ts = {?A, ?B}" by auto
  have ne: "task_id A \<noteq> task_id B" using d ts by auto
  have nobA: "\<not> blocking ?ts x" if "x \<in> set (dependencies ?A)" for x
    using that dA by (auto simp: blocking_def set_ts)
  have nobB: "\<not> blocking ?ts x" if "x \<in> set (dependencies ?B)" for x
    using that dB by (auto simp: blocking_def set_ts)
  have zA: "expected_in_degree ?ts (task_id ?A) = Some 0"
    using expected_in_degree_apply[OF d, of ?A] nobA
    by (simp add: set_ts blocking_count_def filter_empty_conv)
  have zB: "expected_in_degree ?ts (task_id ?B) = Some 0"
    using expected_in_degree_apply[OF d, of ?B] nobB
    by (simp add: set_ts blocking_count_def filter_empty_conv)
  let ?heap = "rev (map entry_of (ready_tasks ?ts))"
  have c: "calc_in_degrees ?ts = Inr (expected_in_degree ?ts)" by (rule calc_in_degrees_result[OF d])
  have ih: "initial_heap ?ts (expected_in_degree ?ts) = Inr ?heap"
    unfolding ready_tasks_def
    by (rule initial_heap_result[OF d]) (simp add: dom_expected_in_degree)
  have reach: "loop_reach ?ts (expected_in_degree ?ts) ?heap []"
    by (rule loop_reach.start[OF c ih])
  have inA: "entry_of ?A \<in> set ?heap" using zA set_ts by (simp add: ready_tasks_def)
  have inB: "entry_of ?B \<in> set ?heap" using zB set_ts by (simp add: ready_tasks_def)
  have "priority_score ?A < priority_score ?B"
    using rescore_no_deadline(2)[OF dl(1) cr(1)] rescore_no_deadline(1)[OF dl(2) cr(2)] urg
    by simp
  then have pr: "priority_score (entry_task (entry_of ?A)) < priority_score (entry_task (entry_of ?B))
        \<or> (priority_score (entry_task (entry_of ?B)) = priority_score (entry_task (entry_of ?A))
            \<and> entry_id (entry_of ?B) < entry_id (entry_of ?A))"
    by (simp add: entry_task_def entry_of_def)
  from ready_pair_order[OF d reach inB inA pr] obtain out
    where out: "topological_sort_with_priority ?ts = Inr out"
      and ab: "appears_before (task_id B) (task_id A) (map task_id out)" by auto
  from topological_sort_permutation[OF d] out have "mset out = mset ?ts" by auto
  then have "mset out = {#?B, ?A#}" using ts by auto
  from mset_pair_cases[OF this] ab ne have "out = [?B, ?A]" by auto
  with out show ?thesis by (simp add: get_sorted_tasks_def Let_def)
qed

section \<open>The fallback batch\<close>

lemma insort_key_lex:
  fixes f g :: "'a \<Rightarrow> int"
  assumes "sorted (map (\<lambda>x. (f x, g x)) ys)" and "\<forall>y \<in> set ys. g x \<le> g y"
  shows "sorted (map (\<lambda>x. (f x, g x)) (insort_key f x ys))"
  using assms
proof (induction ys)
  case Nil
  then show ?case by simp
next
  case (Cons y ys)
  show ?case
  proof (cases "f x \<le> f y")
    case True
    have "(f x, g x) \<le> (f z, g z)" if "z \<in> set (y # ys)" for z
    proof -
      have "(f y, g y) \<le> (f z, g z)" using Cons.prems(1) that by auto
      then have "f y \<le> f z" by (auto simp: less_eq_prod_def)
      with True have "f x \<le> f z" by simp
      moreover have "g x \<le> g z" using Cons.prems(2) that by blast
      ultimately show ?thesis by (auto simp: less_eq_prod_def)
    qed
    with True Cons.prems(1) show ?thesis by auto
  next
    case False
    then have lt: "(f y, g y) \<le> (f x, g x)" by (auto simp: less_eq_prod_def)
    have ih: "sorted (map (\<lambda>x. (f x, g x)) (insort_key f x ys))"
      using Cons.IH Cons.prems by simp
    have "\<forall>z \<in> set (insort_key f x ys). (f y, g y) \<le> (f z, g z)"
      using Cons.prems(1) lt by (auto simp: set_insort_key)
    with False ih show ?thesis by simp
  qed
qed

lemma sort_key_lex:
  fixes f g :: "'a \<Rightarrow> int"
  assumes "sorted (map g xs)"
  shows "sorted (map (\<lambda>x. (f x, g x)) (sort_key f xs))"
  using assms
proof (induction xs)
  case Nil
  then show ?case by simp
next
  case (Cons x xs)
  have "sorted (map (\<lambda>x. (f x, g x)) (sort_key f xs))" using Cons by simp
  moreover have "\<forall>y \<in> set (sort_key f xs). g x \<le> g y" using Cons.prems by simp
  ultimately show ?case by (simp add: insort_key_lex)
qed

lemma sorted_ids_working_set:
  assumes ok: "manager_ok m" and s: "sorted (map fst (tasks m))"
  shows "sorted (map task_id (working_set now include_completed m))"
proof -
  have "sorted (map task_id (map snd (tasks m)))"
    using s by (simp only: manager_ok_ids[OF ok])
  then have "sorted (map task_id (filter (in_working_set include_completed) (map snd (tasks m))))"
    by (rule sorted_filter)
  then show ?thesis by (simp add: working_set_def comp_def)
qed

lemma fallback_batch:
  assumes d: "distinct (map task_id ts)"
  shows "\<exists>in_degree heap emitted batch.
           calc_in_degrees ts = Inr in_degree
         \<and> initial_heap ts in_degree = Inr heap
         \<and> main_loop ts in_degree heap [] = Inr emitted
         \<and> topological_sort_with_priority ts = Inr (emitted @ batch)
         \<and> mset batch = mset (filter (\<lambda>t. t \<notin> set emitted) ts)
         \<and> sorted (map (\<lambda>t. - priority_score t) batch)
         \<and> (\<forall>k. filter (\<lambda>t. priority_score t = k) batch
                = filter (\<lambda>t. priority_score t = k) (filter (\<lambda>t. t \<notin> set emitted) ts))
         \<and> (sorted (map task_id ts)
              \<longrightarrow> sorted (map (\<lambda>t. (- priority_score t, task_id t)) batch))"
proof -
  from topological_sort_total[OF d] obtain emitted
    where ml: "main_loop ts (expected_in_degree ts) (rev (map entry_of (ready_tasks ts))) [] = Inr emitted"
      and res: "topological_sort_with_priority ts =
             Inr (emitted @ sort_key (\<lambda>x. - priority_score x)
                                    (filter (\<lambda>t. t \<notin> set emitted) ts))"
    by blast
  let ?rem = "filter (\<lambda>t. t \<notin> set emitted) ts"
  let ?batch = "sort_key (\<lambda>x. - priority_score x) ?rem"
  have c: "calc_in_degrees ts = Inr (expected_in_degree ts)" by (rule calc_in_degrees_result[OF d])
  have ih: "initial_heap ts (expected_in_degree ts) = Inr (rev (map entry_of (ready_tasks ts)))"
    unfolding ready_tasks_def
    by (rule initial_heap_result[OF d]) (simp add: dom_expected_in_degree)
  have p1: "mset ?batch = mset ?rem" by simp
  have p2: "sorted (map (\<lambda>t. - priority_score t) ?batch)" by (rule sorted_sort_key)
  have p3: "filter (\<lambda>t. priority_score t = k) ?batch = filter (\<lambda>t. priority_score t = k) ?rem" for k
    using sort_key_stable[of "\<lambda>x. - priority_score x" "- k" ?rem] by simp
  have p4: "sorted (map (\<lambda>t. (- priority_score t, task_id t)) ?batch)" if "sorted (map task_id ts)"
  proof -
    have "sorted (map task_id ?rem)" using that by (rule sorted_filter)
    then show ?thesis by (rule sort_key_lex)
  qed
  show ?thesis
    using c ih ml res p1 p2 p3 p4 by blast
qed

lemma two_dependent_tasks:
  assumes ok: "manager_ok m" and two: "mset (map snd (tasks m)) = {#A, B#}"
    and urg: "urgency A = 5" "urgency B = 9"
    and dl: "deadline A = None" "deadline B = None"
    and nc: "\<not> completed A" "\<not> completed B"
    and cr: "created_at A \<le> now" "created_at B \<le> now"
    and dA: "task_id B \<in> set (dependencies A)"
    and dB: "task_id A \<in> set (dependencies B)"
  shows "fst (get_sorted_tasks now False m) = Inr [rescore now B, rescore now A]"
proof -
  let ?A = "rescore now A" and ?B = "rescore now B"
  let ?ts = "working_set now False m"
  have d: "distinct (map task_id ?ts)" by (rule distinct_working_set[OF ok])
  from mset_pair_cases[OF two] have ts: "?ts = [?A, ?B] \<or> ?ts = [?B, ?A]"
    using nc by (auto simp: working_set_def in_working_set_def)
  then have set_ts: "set ?ts = {?A, ?B}" by auto
  have bA: "blocking ?ts (task_id B)" using nc by (auto simp: blocking_def set_ts)
  have bB: "blocking ?ts (task_id A)" using nc by (auto simp: blocking_def set_ts)
  have "filter (blocking ?ts) (dependencies ?A) \<noteq> []"
    using dA bA by (auto simp: filter_empty_conv)
  then have zA: "expected_in_degree ?ts (task_id ?A) \<noteq> Some 0"
    using expected_in_degree_apply[OF d, of ?A] by (simp add: set_ts blocking_count_def)
  have "filter (blocking ?ts) (dependencies ?B) \<noteq> []"
    using dB bB by (auto simp: filter_empty_conv)
  then have zB: "expected_in_degree ?ts (task_id ?B) \<noteq> Some 0"
    using expected_in_degree_apply[OF d, of ?B] by (simp add: set_ts blocking_count_def)
  have rt: "ready_tasks ?ts = []"
    using zA zB set_ts by (auto simp: ready_tasks_def filter_empty_conv)
  have c: "calc_in_degrees ?ts = Inr (expected_in_degree ?ts)" by (rule calc_in_degrees_result[OF d])
  have ih: "initial_heap ?ts (expected_in_degree ?ts) = Inr []"
    using initial_heap_result[OF d, of "expected_in_degree ?ts"]
    by (simp add: dom_expected_in_degree ready_tasks_def[symmetric] rt)
  have lt: "priority_score ?A < priority_score ?B"
    using rescore_no_deadline(2)[OF dl(1) cr(1)] rescore_no_deadline(1)[OF dl(2) cr(2)] urg
    by simp
  have "topological_sort_with_priority ?ts = Inr (sort_key (\<lambda>x. - priority_score x) ?ts)"
    by (simp add: topological_sort_with_priority_def c ih main_loop.simps)
  moreover have "sort_key (\<lambda>x. - priority_score x) ?ts = [?B, ?A]"
    using ts lt by auto
  ultimately show ?thesis by (simp add: get_sorted_tasks_def Let_def)
qed

section \<open>Dependencies come first\<close>

lemma blocking_all_pending:
  assumes "\<forall>t \<in> set ts. \<not> completed t"
  shows "blocking ts d \<longleftrightarrow> d \<in> task_id ` set ts"
  using assms by (auto simp: blocking_def)

lemma blocking_count_pending:
  assumes "\<forall>t \<in> set ts. \<not> completed t"
  shows "blocking_count ts t = int (length (filter (\<lambda>i. i \<in> task_id ` set ts) (dependencies t)))"
  unfolding blocking_count_def using blocking_all_pending[OF assms] by presburger

lemma set_filter_deps:
  "set (filter (\<lambda>i. i \<in> S) xs) = set xs \<inter> S"
  by auto

lemma blocking_count_ge:
  assumes "\<forall>t \<in> set ts. \<not> completed t"
  shows "int (card (set (dependencies t) \<inter> task_id ` set ts)) \<le> blocking_count ts t"
proof -
  have "card (set (filter (\<lambda>i. i \<in> task_id ` set ts) (dependencies t)))
        \<le> length (filter (\<lambda>i. i \<in> task_id ` set ts) (dependencies t))"
    by (rule card_length)
  then show ?thesis
    unfolding blocking_count_pending[OF assms] set_filter_deps by simp
qed

lemma heap_after_pop:
  assumes inv: "loop_inv ts in_degree heap sorted_tasks"
    and ne: "heap \<noteq> []" and pop: "heappop heap = ((k, tid, t), heap1)"
  shows "entry_id ` set heap1 = entry_id ` set heap - {tid}"
proof -
  let ?e = "(k, tid, t)"
  from inv have dh: "distinct (map entry_id heap)" by (simp add: loop_inv_def)
  have mem: "?e \<in> set heap" and h1: "heap1 = remove1 ?e heap"
    using heappop_props[OF ne pop] by auto
  have eid: "entry_id ?e = tid" by (simp add: entry_id_def)
  have "map entry_id heap1 = remove1 tid (map entry_id heap)"
    unfolding h1 using map_remove1_distinct[of entry_id heap ?e] dh mem eid by simp
  then show ?thesis using dh by (metis set_map set_remove1_eq)
qed

lemma ready_deps_emitted:
  assumes inv: "strong_inv ts in_degree heap sorted_tasks" and t: "t \<in> set ts"
    and r: "task_id t \<in> entry_id ` set heap \<union> task_id ` set sorted_tasks"
  shows "set (dependencies t) \<inter> task_id ` set ts \<subseteq> task_id ` set sorted_tasks"
proof -
  let ?S = "set (dependencies t) \<inter> task_id ` set sorted_tasks"
  let ?T = "set (dependencies t) \<inter> task_id ` set ts"
  from inv have li: "loop_inv ts in_degree heap sorted_tasks"
    and nc: "\<forall>t \<in> set ts. \<not> completed t"
    and deg: "in_degree (task_id t) = Some (blocking_count ts t - int (card ?S))"
    using t by (auto simp: strong_inv_def)
  from li have "\<forall>i \<in> entry_id ` set heap \<union> task_id ` set sorted_tasks.
                  \<exists>n. in_degree i = Some n \<and> n \<le> 0"
    by (simp add: loop_inv_def)
  with r obtain n where "in_degree (task_id t) = Some n" "n \<le> 0" by blast
  with deg have le: "blocking_count ts t \<le> int (card ?S)" by simp
  from li have "set sorted_tasks \<subseteq> set ts" by (simp add: loop_inv_def)
  then have sub: "?S \<subseteq> ?T" by auto
  have "card ?T \<le> card ?S" using blocking_count_ge[OF nc, of t] le by linarith
  moreover have "finite ?T" by simp
  ultimately have "?S = ?T" using sub by (metis card_seteq)
  then show ?thesis by blast
qed

lemma card_inter_snoc:
  assumes "tid \<notin> S" and "finite D"
  shows "int (card (D \<inter> insert tid S)) = int (card (D \<inter> S)) + (if tid \<in> D then 1 else 0)"
proof (cases "tid \<in> D")
  case True
  then have "D \<inter> insert tid S = insert tid (D \<inter> S)" by auto
  moreover have "tid \<notin> D \<inter> S" using assms(1) by simp
  ultimately show ?thesis using True assms(2) by simp
next
  case False
  then have "D \<inter> insert tid S = D \<inter> S" by auto
  then show ?thesis using False by simp
qed

lemma strong_inv_step:
  assumes inv: "strong_inv ts in_degree heap sorted_tasks"
    and ne: "heap \<noteq> []" and pop: "heappop heap = ((k, tid, t0), heap1)"
  shows "\<exists>in_degree' heap'. release ts tid (in_degree, heap1) = Inr (in_degree', heap')
           \<and> strong_inv ts in_degree' heap' (sorted_tasks @ [t0])"
proof -
  let ?R = "released tid ts in_degree"
  let ?heap' = "rev (map entry_of ?R) @ heap1"
  let ?deg' = "dec_in_degree tid ts in_degree"
  let ?sorted' = "sorted_tasks @ [t0]"
  from inv have li: "loop_inv ts in_degree heap sorted_tasks"
    and nc: "\<forall>t \<in> set ts. \<not> completed t"
    and deg: "\<forall>t \<in> set ts. in_degree (task_id t) =
        Some (blocking_count ts t - int (card (set (dependencies t) \<inter> task_id ` set sorted_tasks)))"
    and rdy: "\<forall>t \<in> set ts. in_degree (task_id t) = Some 0
        \<longrightarrow> task_id t \<in> entry_id ` set heap \<union> task_id ` set sorted_tasks"
    and ord: "\<forall>t \<in> set sorted_tasks. \<forall>d \<in> set (dependencies t). d \<in> task_id ` set ts
        \<longrightarrow> appears_before d (task_id t) (map task_id sorted_tasks)"
    by (auto simp: strong_inv_def)
  note st = loop_inv_step[OF li ne pop]
  have t0: "t0 \<in> set ts" and tid: "tid = task_id t0" and mem: "(k, tid, t0) \<in> set heap"
    using st(3,4,5) by auto
  from li have dist: "distinct (map task_id ts)"
    and d2: "distinct (map entry_id heap @ map task_id sorted_tasks)"
    by (auto simp: loop_inv_def)
  have tid_heap: "tid \<in> entry_id ` set heap"
    using mem by (force simp: entry_id_def)
  have tid_sorted: "tid \<notin> task_id ` set sorted_tasks" using d2 tid_heap by auto
  have ids': "task_id ` set ?sorted' = insert tid (task_id ` set sorted_tasks)"
    using tid by simp
  have h1: "entry_id ` set heap1 = entry_id ` set heap - {tid}"
    by (rule heap_after_pop[OF li ne pop])
  have hids': "entry_id ` set ?heap' = task_id ` set ?R \<union> (entry_id ` set heap - {tid})"
    using h1 by (simp add: image_Un image_image)
  have deg': "\<forall>t \<in> set ts. ?deg' (task_id t) =
        Some (blocking_count ts t - int (card (set (dependencies t) \<inter> task_id ` set ?sorted')))"
  proof
    fix t assume t: "t \<in> set ts"
    have h: "hit tid t \<longleftrightarrow> tid \<in> set (dependencies t)" using nc t by (simp add: hit_def)
    have c: "int (card (set (dependencies t) \<inter> task_id ` set ?sorted'))
           = int (card (set (dependencies t) \<inter> task_id ` set sorted_tasks))
             + (if tid \<in> set (dependencies t) then 1 else 0)"
      unfolding ids' by (rule card_inter_snoc[OF tid_sorted]) simp
    show "?deg' (task_id t) =
        Some (blocking_count ts t - int (card (set (dependencies t) \<inter> task_id ` set ?sorted')))"
      unfolding c using dec_in_degree_apply[OF dist t, of tid in_degree] deg t h by simp
  qed
  have rdy': "\<forall>t \<in> set ts. ?deg' (task_id t) = Some 0
        \<longrightarrow> task_id t \<in> entry_id ` set ?heap' \<union> task_id ` set ?sorted'"
  proof (intro ballI impI)
    fix t assume t: "t \<in> set ts" and z: "?deg' (task_id t) = Some 0"
    from deg t obtain n where n: "in_degree (task_id t) = Some n" by blast
    show "task_id t \<in> entry_id ` set ?heap' \<union> task_id ` set ?sorted'"
    proof (cases "hit tid t")
      case True
      with z n dec_in_degree_apply[OF dist t, of tid in_degree] have "n = 1" by simp
      with True n t have "t \<in> set ?R" by (simp add: released_def)
      then show ?thesis unfolding hids' by blast
    next
      case False
      with z dec_in_degree_apply[OF dist t, of tid in_degree]
      have "in_degree (task_id t) = Some 0" by simp
      with rdy t have "task_id t \<in> entry_id ` set heap \<union> task_id ` set sorted_tasks" by blast
      then show ?thesis unfolding hids' ids' by blast
    qed
  qed
  have t0deps: "set (dependencies t0) \<inter> task_id ` set ts \<subseteq> task_id ` set sorted_tasks"
    by (rule ready_deps_emitted[OF inv t0]) (use tid tid_heap in simp)
  have ord': "\<forall>t \<in> set ?sorted'. \<forall>d \<in> set (dependencies t). d \<in> task_id ` set ts
        \<longrightarrow> appears_before d (task_id t) (map task_id ?sorted')"
  proof (intro ballI impI)
    fix t d assume t: "t \<in> set ?sorted'" and d: "d \<in> set (dependencies t)"
      and dw: "d \<in> task_id ` set ts"
    show "appears_before d (task_id t) (map task_id ?sorted')"
    proof (cases "t \<in> set sorted_tasks")
      case True
      with ord d dw have "appears_before d (task_id t) (map task_id sorted_tasks)" by blast
      then show ?thesis
        using appears_before_append1[of d "task_id t" "map task_id sorted_tasks" "[task_id t0]"]
        by simp
    next
      case False
      with t have eq: "t = t0" by simp
      with d dw t0deps have "d \<in> task_id ` set sorted_tasks" by blast
      then have "d \<in> set (map task_id sorted_tasks)" by simp
      then have "appears_before d (task_id t0) (map task_id sorted_tasks @ [task_id t0])"
        by (rule appears_before_split) simp
      then show ?thesis using eq by simp
    qed
  qed
  have "strong_inv ts ?deg' ?heap' ?sorted'"
    unfolding strong_inv_def using st(2) nc deg' rdy' ord' by blast
  then show ?thesis using st(1) by blast
qed

lemma strong_inv_initial:
  assumes d: "distinct (map task_id ts)" and nc: "\<forall>t \<in> set ts. \<not> completed t"
  shows "strong_inv ts (expected_in_degree ts) (rev (map entry_of (ready_tasks ts))) []"
proof -
  have "\<forall>t \<in> set ts. expected_in_degree ts (task_id t) = Some 0
        \<longrightarrow> task_id t \<in> entry_id ` set (rev (map entry_of (ready_tasks ts))) \<union> task_id ` set []"
    by (auto simp: ready_tasks_def image_iff intro!: bexI)
  moreover have "\<forall>t \<in> set ts. expected_in_degree ts (task_id t) =
        Some (blocking_count ts t - int (card (set (dependencies t) \<inter> task_id ` set [])))"
    using expected_in_degree_apply[OF d] by simp
  ultimately show ?thesis
    unfolding strong_inv_def using loop_inv_initial[OF d] nc by simp
qed

lemma grounded_in_list: "grounded ts d \<Longrightarrow> d \<in> task_id ` set ts"
  by (induction rule: grounded.induct) auto

lemma grounded_emitted:
  assumes inv: "strong_inv ts in_degree [] out" and g: "grounded ts d"
  shows "d \<in> task_id ` set out"
  using g
proof (induction rule: grounded.induct)
  case (chain x d)
  let ?S = "set (dependencies x) \<inter> task_id ` set out"
  let ?T = "set (dependencies x) \<inter> task_id ` set ts"
  from inv have li: "loop_inv ts in_degree [] out"
    and nc: "\<forall>t \<in> set ts. \<not> completed t"
    and deg: "in_degree (task_id x) = Some (blocking_count ts x - int (card ?S))"
    and rdy: "in_degree (task_id x) = Some 0 \<longrightarrow> task_id x \<in> entry_id ` set [] \<union> task_id ` set out"
    using chain.hyps(1) by (auto simp: strong_inv_def)
  from li have "set out \<subseteq> set ts" by (simp add: loop_inv_def)
  then have "?S \<subseteq> ?T" by auto
  moreover have "?T \<subseteq> ?S" using chain.IH by blast
  ultimately have eq: "?S = ?T" by blast
  have "blocking_count ts x = int (card (set (filter (\<lambda>i. i \<in> task_id ` set ts) (dependencies x))))"
    unfolding blocking_count_pending[OF nc] using distinct_card[OF chain.hyps(3)] by simp
  then have "blocking_count ts x = int (card ?T)" by (simp only: set_filter_deps)
  with deg eq have "in_degree (task_id x) = Some 0" by simp
  with rdy chain.hyps(2) show ?case by simp
qed

lemma dependency_order:
  assumes d: "distinct (map task_id ts)" and nc: "\<forall>x \<in> set ts. \<not> completed x"
    and t: "t \<in> set ts" and dep: "dep \<in> set (dependencies t)" and g: "grounded ts dep"
  shows "\<exists>out. topological_sort_with_priority ts = Inr out
           \<and> appears_before dep (task_id t) (map task_id out)"
proof -
  have "\<exists>out in_degree'. main_loop ts (expected_in_degree ts) (rev (map entry_of (ready_tasks ts))) []
            = Inr out \<and> strong_inv ts in_degree' [] out"
    by (rule main_loop_rule[where I = "strong_inv ts", OF strong_inv_initial[OF d nc]])
       (rule strong_inv_step)
  then obtain emitted deg' where
    ml: "main_loop ts (expected_in_degree ts) (rev (map entry_of (ready_tasks ts))) [] = Inr emitted"
    and inv: "strong_inv ts deg' [] emitted" by blast
  let ?batch = "sort_key (\<lambda>x. - priority_score x) (filter (\<lambda>t. t \<notin> set emitted) ts)"
  have c: "calc_in_degrees ts = Inr (expected_in_degree ts)" by (rule calc_in_degrees_result[OF d])
  have ih: "initial_heap ts (expected_in_degree ts) = Inr (rev (map entry_of (ready_tasks ts)))"
    unfolding ready_tasks_def
    by (rule initial_heap_result[OF d]) (simp add: dom_expected_in_degree)
  have res: "topological_sort_with_priority ts = Inr (emitted @ ?batch)"
    by (simp add: topological_sort_with_priority_def c ih ml)
  have din: "dep \<in> task_id ` set emitted" by (rule grounded_emitted[OF inv g])
  have dw: "dep \<in> task_id ` set ts" by (rule grounded_in_list[OF g])
  have "appears_before dep (task_id t) (map task_id (emitted @ ?batch))"
  proof (cases "t \<in> set emitted")
    case True
    from inv have "\<forall>t \<in> set emitted. \<forall>d \<in> set (dependencies t). d \<in> task_id ` set ts
        \<longrightarrow> appears_before d (task_id t) (map task_id emitted)"
      by (simp add: strong_inv_def)
    with True dep dw have "appears_before dep (task_id t) (map task_id emitted)" by blast
    then show ?thesis
      using appears_before_append1[of dep "task_id t" "map task_id emitted" "map task_id ?batch"]
      by simp
  next
    case False
    with t have "t \<in> set ?batch" by simp
    then have "task_id t \<in> set (map task_id ?batch)" by (simp del: set_sort)
    moreover have "dep \<in> set (map task_id emitted)" using din by simp
    ultimately have "appears_before dep (task_id t) (map task_id emitted @ map task_id ?batch)"
      by (rule appears_before_split[rotated])
    then show ?thesis by simp
  qed
  with res show ?thesis by blast
qed

lemma working_set_pending:
  "\<forall>x \<in> set (working_set now False m). \<not> completed x"
  by (auto simp: working_set_def in_working_set_def)

lemma no_path_to_undepended:
  assumes "\<forall>x \<in> set ts. b \<notin> set (dependencies x)"
  shows "(a, b) \<notin> (depends_on ts)\<^sup>+"
proof
  assume "(a, b) \<in> (depends_on ts)\<^sup>+"
  then have "b \<in> Range ((depends_on ts)\<^sup>+)" by blast
  then have "b \<in> Range (depends_on ts)" by simp
  with assms show False by (auto simp: depends_on_def)
qed

text \<open>
  Two more ways in which a task is emitted before a pending dependency, both without any
  cycle. With \<^verbatim>\<open>include_completed\<close>, emitting the completed task 1 decrements the in-degree
  of task 3, in which task 1 was never counted, so task 3 is released before its pending
  dependency 2. And a dependency listed twice is counted twice but released once, so task 2
  is never ready and its dependent 3 overtakes it in the fallback.
\<close>

lemma completed_emitter_releases_early:
  "fst (get_sorted_tasks 0 True
          (example_manager [example_task 1 10 [] True, example_task 2 1 [] False,
                            example_task 3 10 [1, 2] False]))
     = Inr [rescore 0 (example_task 1 10 [] True), rescore 0 (example_task 3 10 [1, 2] False),
            rescore 0 (example_task 2 1 [] False)]"
  by (simp add: example_manager_def example_task_def get_sorted_tasks_def
      working_set_def in_working_set_def rescore_def calculate_priority_score_def
      timedelta_days_def topological_sort_with_priority_def calc_in_degrees_def
      make_task_dict_def make_in_degree_def count_task_def count_dep_def initial_heap_def
      push_if_ready_def heappush_def entry_of_def entry_key_def main_loop.simps heappop_def
      release_def release_step_def Let_def)

lemma duplicate_dependency_never_ready:
  "fst (get_sorted_tasks 0 False
          (example_manager [example_task 1 5 [] False, example_task 2 1 [1, 1] False,
                            example_task 3 9 [2] False]))
     = Inr [rescore 0 (example_task 1 5 [] False), rescore 0 (example_task 3 9 [2] False),
            rescore 0 (example_task 2 1 [1, 1] False)]"
  by (simp add: example_manager_def example_task_def get_sorted_tasks_def
      working_set_def in_working_set_def rescore_def calculate_priority_score_def
      timedelta_days_def topological_sort_with_priority_def calc_in_degrees_def
      make_task_dict_def make_in_degree_def count_task_def count_dep_def initial_heap_def
      push_if_ready_def heappush_def entry_of_def entry_key_def main_loop.simps heappop_def
      release_def release_step_def Let_def)

section \<open>Editing and deleting\<close>

lemma title_rescore [simp]: "title (rescore now t) = title t"
  by (simp add: rescore_def calculate_priority_score_def Let_def)

lemma description_rescore [simp]: "description (rescore now t) = description t"
  by (simp add: rescore_def calculate_priority_score_def Let_def)

lemma deadline_rescore [simp]: "deadline (rescore now t) = deadline t"
  by (simp add: rescore_def calculate_priority_score_def Let_def)

lemma urgency_rescore [simp]: "urgency (rescore now t) = urgency t"
  by (simp add: rescore_def calculate_priority_score_def Let_def)

lemma created_at_rescore [simp]: "created_at (rescore now t) = created_at t"
  by (simp add: rescore_def calculate_priority_score_def Let_def)

lemma priority_score_rescore:
  "priority_score (rescore now t) = fst (calculate_priority_score now t)"
  by (simp add: rescore_def calculate_priority_score_def Let_def)

lemma rescore_idem: "rescore now (rescore now t) = rescore now t"
  by (simp add: rescore_def calculate_priority_score_def Let_def)

lemma map_of_update_priorities:
  "map_of (tasks (update_priorities now m)) k = map_option (rescore now) (map_of (tasks m) k)"
  by (simp add: update_priorities_def map_ran_conv)

lemma keys_update_priorities [simp]:
  "map fst (tasks (update_priorities now m)) = map fst (tasks m)"
  by (simp add: update_priorities_def)

lemma next_id_update_priorities [simp]: "next_id (update_priorities now m) = next_id m"
  by (simp add: update_priorities_def)

lemma edit_task_unknown:
  "tid \<notin> fst ` set (tasks m) \<Longrightarrow> edit_task now tid ttl descr dl urg deps m = (False, m)"
  by (simp add: edit_task_def)

lemma edit_task_lookup:
  assumes "tid \<in> fst ` set (tasks m)"
  shows "fst (edit_task now tid ttl descr dl urg deps m) = True"
    and "map_of (tasks (snd (edit_task now tid ttl descr dl urg deps m))) k =
         map_option (\<lambda>t. rescore now (if k = tid then apply_edit ttl descr dl urg deps t else t))
           (map_of (tasks m) k)"
    and "map fst (tasks (snd (edit_task now tid ttl descr dl urg deps m))) = map fst (tasks m)"
    and "next_id (snd (edit_task now tid ttl descr dl urg deps m)) = next_id m"
  using assms
  by (simp_all add: edit_task_def Let_def map_of_update_priorities map_ran_conv
      option.map_comp comp_def)

lemma apply_edit_fields:
  "title (apply_edit ttl descr dl urg deps t) = (case ttl of None \<Rightarrow> title t | Some v \<Rightarrow> v)"
  "description (apply_edit ttl descr dl urg deps t) = (case descr of None \<Rightarrow> description t | Some v \<Rightarrow> v)"
  "deadline (apply_edit ttl descr dl urg deps t) = (case dl of None \<Rightarrow> deadline t | Some v \<Rightarrow> Some v)"
  "urgency (apply_edit ttl descr dl urg deps t) = (case urg of None \<Rightarrow> urgency t | Some v \<Rightarrow> v)"
  "dependencies (apply_edit ttl descr dl urg deps t) = (case deps of None \<Rightarrow> dependencies t | Some v \<Rightarrow> v)"
  "task_id (apply_edit ttl descr dl urg deps t) = task_id t"
  "completed (apply_edit ttl descr dl urg deps t) = completed t"
  "created_at (apply_edit ttl descr dl urg deps t) = created_at t"
  by (simp_all add: apply_edit_def Let_def split: option.splits)

lemma delete_task_unknown:
  "tid \<notin> fst ` set (tasks m) \<Longrightarrow> delete_task now tid m = (False, m)"
  by (simp add: delete_task_def)

lemma delete_task_known:
  assumes "tid \<in> fst ` set (tasks m)"
  shows "fst (delete_task now tid m) = True"
    and "map_of (tasks (snd (delete_task now tid m))) k =
         (if k = tid then None
          else map_option (\<lambda>t. rescore now (strip_dependency tid t)) (map_of (tasks m) k))"
    and "next_id (snd (delete_task now tid m)) = next_id m"
  using assms
  by (simp_all add: delete_task_def Let_def map_of_update_priorities map_ran_conv
      delete_conv' option.map_comp comp_def)

lemma strip_dependency_distinct:
  "distinct (dependencies t) \<Longrightarrow> tid \<notin> set (dependencies (strip_dependency tid t))"
  by (simp add: strip_dependency_def)

lemma delete_task_strips_when_distinct:
  assumes "tid \<in> fst ` set (tasks m)"
    and "\<forall>p \<in> set (tasks m). distinct (dependencies (snd p))"
    and "map_of (tasks (snd (delete_task now tid m))) k = Some t'"
  shows "tid \<notin> set (dependencies t')"
proof -
  from assms(3) delete_task_known(2)[OF assms(1), of now k]
  obtain t where t: "map_of (tasks m) k = Some t" and t': "t' = rescore now (strip_dependency tid t)"
    by (auto split: if_splits)
  from t have "(k, t) \<in> set (tasks m)" by (rule map_of_SomeD)
  with assms(2) have "distinct (dependencies t)" by force
  then show ?thesis unfolding t' by (simp add: strip_dependency_distinct)
qed

section \<open>Saving and loading\<close>

lemma from_dict_to_dict:
  assumes "task_roundtrips isoformat fromisoformat t"
  shows "from_dict isoformat fromisoformat now (to_dict isoformat t) = Inr (t, False)"
  using assms
  by (cases "deadline t")
     (simp_all add: from_dict_def to_dict_def new_task_def task_roundtrips_def roundtrips_def Let_def)

lemma update_fresh: "k \<notin> fst ` set al \<Longrightarrow> AList.update k v al = al @ [(k, v)]"
  by (induction al) auto

lemma load_records_saved:
  assumes "distinct (map fst acc @ map fst xs)"
    and "list_all (\<lambda>p. task_id (snd p) = fst p) xs"
    and "list_all (\<lambda>p. task_roundtrips isoformat fromisoformat (snd p)) xs"
  shows "load_records isoformat fromisoformat now (map (\<lambda>p. to_dict isoformat (snd p)) xs) acc
         = (None, acc @ map (\<lambda>p. (fst p, snd p, False)) xs)"
  using assms
proof (induction xs arbitrary: acc)
  case Nil
  then show ?case by simp
next
  case (Cons p xs)
  obtain k t where p: "p = (k, t)" by (cases p)
  from Cons.prems p have k: "task_id t = k" and rt: "task_roundtrips isoformat fromisoformat t"
    and fresh: "k \<notin> fst ` set acc" by auto
  have d: "distinct (map fst (acc @ [(k, t, False)]) @ map fst xs)" using Cons.prems(1) p by simp
  have "load_records isoformat fromisoformat now (map (\<lambda>p. to_dict isoformat (snd p)) xs)
           (acc @ [(k, t, False)]) = (None, (acc @ [(k, t, False)]) @ map (\<lambda>p. (fst p, snd p, False)) xs)"
    using Cons.IH[OF d] Cons.prems(2,3) by simp
  then show ?case
    by (simp add: p from_dict_to_dict[OF rt] k update_fresh[OF fresh])
qed

lemma update_loaded_unmarked:
  "update_loaded now (map (\<lambda>p. (fst p, snd p, False)) xs)
   = (None, AList.map_ran (\<lambda>k t. rescore now t) xs)"
  by (induction xs) (auto simp: map_ran_def)

lemma forget_score_rescore [simp]: "forget_score (rescore now t) = forget_score t"
  by (simp add: forget_score_def rescore_def calculate_priority_score_def Let_def)

lemma load_saved:
  assumes ok: "manager_ok m" and codec: "codec_ok isoformat fromisoformat m"
  shows "load_from_json isoformat fromisoformat now (Object (save_to_json isoformat m)) m0
         = (True, update_priorities now m)"
proof -
  from ok have d: "distinct (map fst ([] :: loaded) @ map fst (tasks m))"
    and ids: "list_all (\<lambda>p. task_id (snd p) = fst p) (tasks m)"
    by (simp_all add: manager_ok_def)
  from codec have rt: "list_all (\<lambda>p. task_roundtrips isoformat fromisoformat (snd p)) (tasks m)"
    by (simp add: codec_ok_def)
  have lr: "load_records isoformat fromisoformat now (map (\<lambda>p. to_dict isoformat (snd p)) (tasks m)) []
           = (None, [] @ map (\<lambda>p. (fst p, snd p, False)) (tasks m))"
    by (rule load_records_saved[OF d ids rt])
  have eq: "m0\<lparr>tasks := AList.map_ran (\<lambda>k t. rescore now t) (tasks m), next_id := next_id m\<rparr>
            = update_priorities now m"
    by (simp add: update_priorities_def)
  show ?thesis
    using lr by (simp add: load_from_json_def save_to_json_def update_loaded_unmarked eq)
qed





text \<open>
  A failure after the loop: the one record decodes, its deadline is offset-aware, so
  \<^verbatim>\<open>next_id\<close> is assigned and the scoring raises. The load reports failure with the
  record's task stored and \<^verbatim>\<open>next_id\<close> replaced.
\<close>

lemma late_failure_replaces_next_id:
  "load_from_json example_isoformat example_fromisoformat 0
     (Object \<lparr>f_tasks = Some [(to_dict example_isoformat (example_task 7 5 [] False))
                                 \<lparr>r_deadline := Some ''1970-01-02T00:00:00+00:00''\<rparr>],
              f_next_id = Some 9\<rparr>)
     \<lparr>tasks = [(1, example_task 1 5 [] False)], next_id = 2\<rparr>
   = (False, \<lparr>tasks = [(7, (example_task 7 5 [] False)\<lparr>deadline := Some 86400000000\<rparr>)],
              next_id = 9\<rparr>)"
  by (simp add: load_from_json_def to_dict_def from_dict_def new_task_def Let_def unmarked_def
      example_task_def example_isoformat_def example_fromisoformat_def)

section \<open>Properties\<close>

subsection \<open>Claim C1\<close>

text \<open>
  C1 as the specification states it fails. Tasks 1 and 2 depend on each other, task 3
  depends on task 1 and task 4 on task 3; all are pending. No dependency path leads from
  task 3 back to task 4, but the ready set is empty from the start, so all four are emitted
  by the fallback in order of score alone: task 4 (urgency 9) comes first, before its
  dependency 3 (urgency 1).
\<close>

theorem C1_downstream_of_cycle_counterexample:
  "fst (get_sorted_tasks 0 False
          (example_manager [example_task 1 5 [2] False, example_task 2 5 [1] False,
                            example_task 3 1 [1] False, example_task 4 9 [3] False]))
     = Inr [rescore 0 (example_task 4 9 [3] False), rescore 0 (example_task 1 5 [2] False),
            rescore 0 (example_task 2 5 [1] False), rescore 0 (example_task 3 1 [1] False)]
   \<and> 3 \<in> set (dependencies (rescore 0 (example_task 4 9 [3] False)))
   \<and> rescore 0 (example_task 3 1 [1] False)
        \<in> set (working_set 0 False
            (example_manager [example_task 1 5 [2] False, example_task 2 5 [1] False,
                              example_task 3 1 [1] False, example_task 4 9 [3] False]))
   \<and> \<not> completed (rescore 0 (example_task 3 1 [1] False))
   \<and> (3, 4) \<notin> (depends_on (working_set 0 False
            (example_manager [example_task 1 5 [2] False, example_task 2 5 [1] False,
                              example_task 3 1 [1] False, example_task 4 9 [3] False])))\<^sup>+
   \<and> \<not> appears_before 3 4
        (map task_id [rescore 0 (example_task 4 9 [3] False), rescore 0 (example_task 1 5 [2] False),
                      rescore 0 (example_task 2 5 [1] False), rescore 0 (example_task 3 1 [1] False)])"
proof -
  let ?m = "example_manager [example_task 1 5 [2] False, example_task 2 5 [1] False,
                            example_task 3 1 [1] False, example_task 4 9 [3] False]"
  have ws: "working_set 0 False ?m =
      [rescore 0 (example_task 1 5 [2] False), rescore 0 (example_task 2 5 [1] False),
       rescore 0 (example_task 3 1 [1] False), rescore 0 (example_task 4 9 [3] False)]"
    by (simp add: working_set_def example_manager_def example_task_def in_working_set_def)
  have out: "fst (get_sorted_tasks 0 False ?m)
     = Inr [rescore 0 (example_task 4 9 [3] False), rescore 0 (example_task 1 5 [2] False),
            rescore 0 (example_task 2 5 [1] False), rescore 0 (example_task 3 1 [1] False)]"
    by (simp add: example_manager_def example_task_def get_sorted_tasks_def
      working_set_def in_working_set_def rescore_def calculate_priority_score_def
      timedelta_days_def topological_sort_with_priority_def calc_in_degrees_def
      make_task_dict_def make_in_degree_def count_task_def count_dep_def initial_heap_def
      push_if_ready_def heappush_def entry_of_def entry_key_def main_loop.simps heappop_def
      release_def release_step_def Let_def)
  have nopath: "(3, 4) \<notin> (depends_on (working_set 0 False ?m))\<^sup>+"
    unfolding ws by (rule no_path_to_undepended) (simp add: example_task_def)
  have mem: "rescore 0 (example_task 3 1 [1] False) \<in> set (working_set 0 False ?m)"
    by (simp add: ws)
  have rest: "3 \<in> set (dependencies (rescore 0 (example_task 4 9 [3] False)))"
    "\<not> completed (rescore 0 (example_task 3 1 [1] False))"
    "\<not> appears_before 3 4
        (map task_id [rescore 0 (example_task 4 9 [3] False), rescore 0 (example_task 1 5 [2] False),
                      rescore 0 (example_task 2 5 [1] False), rescore 0 (example_task 3 1 [1] False)])"
    by (simp_all add: example_task_def)
  show ?thesis using out rest(1) mem rest(2) nopath rest(3) by (intro conjI)
qed

text \<open>
  C1, amended. For every well-formed manager and every call of \<^verbatim>\<open>get_sorted_tasks\<close> whose
  working set holds no completed task (always so when \<^verbatim>\<open>include_completed\<close> is false):
  if task \<open>t\<close> of the working set lists the id \<open>d\<close>, and \<open>d\<close> is grounded in the working set
  (it names a task there, every dependency chain from it inside the working set ends, and
  no task on these chains lists a working-set dependency twice), then the task with id \<open>d\<close>
  appears strictly before \<open>t\<close> in the result.
\<close>

theorem C1_dependency_before_dependent:
  assumes "manager_ok m"
    and "\<forall>x \<in> set (working_set now include_completed m). \<not> completed x"
    and "t \<in> set (working_set now include_completed m)"
    and "d \<in> set (dependencies t)"
    and "grounded (working_set now include_completed m) d"
  shows "\<exists>out. fst (get_sorted_tasks now include_completed m) = Inr out
           \<and> appears_before d (task_id t) (map task_id out)"
  using dependency_order[OF distinct_working_set[OF assms(1)] assms(2,3,4,5)]
  by (simp add: get_sorted_tasks_def Let_def)

text \<open>
  The witness is the scenario of the specification: A has urgency 9 and no deadline, B has
  urgency 5, is overdue by a day and depends on A; B has the higher score (250 against 90)
  and still comes second.
\<close>

theorem C1_dependency_before_dependent_witness:
  "manager_ok (example_manager [example_task 1 9 [] False,
                                (example_task 2 5 [1] False)\<lparr>deadline := Some (- 86400000000)\<rparr>])
   \<and> list_all (\<lambda>x. \<not> completed x)
        (working_set 0 False (example_manager [example_task 1 9 [] False,
                                (example_task 2 5 [1] False)\<lparr>deadline := Some (- 86400000000)\<rparr>]))
   \<and> rescore 0 ((example_task 2 5 [1] False)\<lparr>deadline := Some (- 86400000000)\<rparr>)
        \<in> set (working_set 0 False (example_manager [example_task 1 9 [] False,
                                (example_task 2 5 [1] False)\<lparr>deadline := Some (- 86400000000)\<rparr>]))
   \<and> 1 \<in> set (dependencies (rescore 0 ((example_task 2 5 [1] False)\<lparr>deadline := Some (- 86400000000)\<rparr>)))
   \<and> grounded (working_set 0 False (example_manager [example_task 1 9 [] False,
                                (example_task 2 5 [1] False)\<lparr>deadline := Some (- 86400000000)\<rparr>])) 1
   \<and> priority_score (rescore 0 (example_task 1 9 [] False))
        < priority_score (rescore 0 ((example_task 2 5 [1] False)\<lparr>deadline := Some (- 86400000000)\<rparr>))
   \<and> (\<exists>out. fst (get_sorted_tasks 0 False (example_manager [example_task 1 9 [] False,
                                (example_task 2 5 [1] False)\<lparr>deadline := Some (- 86400000000)\<rparr>])) = Inr out
         \<and> appears_before 1
              (task_id (rescore 0 ((example_task 2 5 [1] False)\<lparr>deadline := Some (- 86400000000)\<rparr>)))
              (map task_id out))"
proof -
  let ?A = "example_task 1 9 [] False"
  let ?B = "(example_task 2 5 [1] False)\<lparr>deadline := Some (- 86400000000)\<rparr>"
  let ?m = "example_manager [?A, ?B]"
  have ok: "manager_ok ?m"
    by (simp add: manager_ok_def example_manager_def example_task_def)
  have ws: "working_set 0 False ?m = [rescore 0 ?A, rescore 0 ?B]"
    by (simp add: working_set_def example_manager_def example_task_def in_working_set_def)
  have nc: "\<forall>x \<in> set (working_set 0 False ?m). \<not> completed x"
    by (rule working_set_pending)
  have mem: "rescore 0 ?B \<in> set (working_set 0 False ?m)" by (simp add: ws)
  have dep: "1 \<in> set (dependencies (rescore 0 ?B))" by (simp add: example_task_def)
  have g: "grounded (working_set 0 False ?m) 1"
    unfolding ws by (rule grounded.chain[of "rescore 0 ?A"]) (simp_all add: example_task_def)
  have pr: "priority_score (rescore 0 ?A) < priority_score (rescore 0 ?B)"
    by (simp add: rescore_def calculate_priority_score_def example_task_def timedelta_days_def)
  have nc': "list_all (\<lambda>x. \<not> completed x) (working_set 0 False ?m)"
    using nc by (simp add: list_all_iff)
  show ?thesis
    using ok nc' mem dep g pr C1_dependency_before_dependent[OF ok nc mem dep g]
    by (intro conjI)
qed

subsection \<open>Claim C2\<close>

text \<open>
  C2. For every manager state and either value of \<^verbatim>\<open>include_completed\<close>,
  \<^verbatim>\<open>get_sorted_tasks\<close> returns a list (no exception is raised: no key is missing, no two
  heap entries tie on score and id) and the list is a permutation of the working set, each
  task once. The witness runs it on the empty manager, on a manager whose tasks are all
  completed and on a two-task dependency cycle.
\<close>

theorem C2_ordered_total_permutation:
  assumes "manager_ok m"
  shows "\<exists>out. fst (get_sorted_tasks now include_completed m) = Inr out
           \<and> mset out = mset (working_set now include_completed m)
           \<and> distinct (map task_id out)"
proof -
  let ?ts = "working_set now include_completed m"
  have d: "distinct (map task_id ?ts)" by (rule distinct_working_set[OF assms])
  from topological_sort_permutation[OF d] obtain out
    where out: "topological_sort_with_priority ?ts = Inr out" "mset out = mset ?ts" by blast
  then have "mset (map task_id out) = mset (map task_id ?ts)" by simp
  then have "distinct (map task_id out)" using d mset_eq_imp_distinct_iff by blast
  with out show ?thesis by (simp add: get_sorted_tasks_def Let_def)
qed

theorem C2_ordered_total_permutation_witness:
  "(manager_ok init_manager \<and>
    (\<exists>out. fst (get_sorted_tasks 0 True init_manager) = Inr out
       \<and> mset out = mset (working_set 0 True init_manager) \<and> distinct (map task_id out))) \<and>
   (manager_ok (example_manager [example_task 1 5 [] True, example_task 2 9 [1] True]) \<and>
    (\<exists>out. fst (get_sorted_tasks 0 False
                  (example_manager [example_task 1 5 [] True, example_task 2 9 [1] True])) = Inr out
       \<and> mset out = mset (working_set 0 False
                  (example_manager [example_task 1 5 [] True, example_task 2 9 [1] True]))
       \<and> distinct (map task_id out))) \<and>
   (manager_ok (example_manager [example_task 1 5 [2] False, example_task 2 9 [1] False]) \<and>
    (\<exists>out. fst (get_sorted_tasks 0 False
                  (example_manager [example_task 1 5 [2] False, example_task 2 9 [1] False])) = Inr out
       \<and> mset out = mset (working_set 0 False
                  (example_manager [example_task 1 5 [2] False, example_task 2 9 [1] False]))
       \<and> distinct (map task_id out)))"
proof -
  have ok1: "manager_ok init_manager"
    by (simp add: manager_ok_def init_manager_def)
  have ok2: "manager_ok (example_manager [example_task 1 5 [] True, example_task 2 9 [1] True])"
    by (simp add: manager_ok_def example_manager_def example_task_def)
  have ok3: "manager_ok (example_manager [example_task 1 5 [2] False, example_task 2 9 [1] False])"
    by (simp add: manager_ok_def example_manager_def example_task_def)
  show ?thesis
    using ok1 ok2 ok3
      C2_ordered_total_permutation[OF ok1, of 0 True]
      C2_ordered_total_permutation[OF ok2, of 0 False]
      C2_ordered_total_permutation[OF ok3, of 0 False]
    by blast
qed

subsection \<open>Claim C3\<close>

text \<open>
  C3. Whenever two entries are in the ready heap at the head of the main loop of
  \<^verbatim>\<open>get_sorted_tasks\<close>, the one whose task has the higher score, or the lower id when the
  scores are equal, comes first in the result. And for a manager that holds exactly two
  pending tasks with urgencies 5 and 9, no deadlines, created no later than the clock
  reading and not depending on themselves or each other, the result is the task of
  urgency 9 followed by the task of urgency 5.
\<close>

theorem C3_ready_heap_order:
  "(manager_ok m
    \<and> loop_reach (working_set now include_completed m) in_degree heap sorted_tasks
    \<and> a \<in> set heap \<and> b \<in> set heap
    \<and> (priority_score (entry_task b) < priority_score (entry_task a)
        \<or> (priority_score (entry_task a) = priority_score (entry_task b) \<and> entry_id a < entry_id b))
    \<longrightarrow> (\<exists>out. fst (get_sorted_tasks now include_completed m) = Inr out
            \<and> appears_before (entry_id a) (entry_id b) (map task_id out)))
   \<and> (manager_ok m2 \<and> mset (map snd (tasks m2)) = {#A, B#}
      \<and> urgency A = 5 \<and> urgency B = 9 \<and> deadline A = None \<and> deadline B = None
      \<and> \<not> completed A \<and> \<not> completed B \<and> created_at A \<le> now2 \<and> created_at B \<le> now2
      \<and> set (dependencies A) \<inter> {task_id A, task_id B} = {}
      \<and> set (dependencies B) \<inter> {task_id A, task_id B} = {}
    \<longrightarrow> fst (get_sorted_tasks now2 False m2) = Inr [rescore now2 B, rescore now2 A])"
proof (intro conjI impI)
  assume h: "manager_ok m
    \<and> loop_reach (working_set now include_completed m) in_degree heap sorted_tasks
    \<and> a \<in> set heap \<and> b \<in> set heap
    \<and> (priority_score (entry_task b) < priority_score (entry_task a)
        \<or> (priority_score (entry_task a) = priority_score (entry_task b) \<and> entry_id a < entry_id b))"
  then have d: "distinct (map task_id (working_set now include_completed m))"
    using distinct_working_set by blast
  from h have r: "loop_reach (working_set now include_completed m) in_degree heap sorted_tasks"
    and a: "a \<in> set heap" and b: "b \<in> set heap"
    and pr: "priority_score (entry_task b) < priority_score (entry_task a)
        \<or> (priority_score (entry_task a) = priority_score (entry_task b) \<and> entry_id a < entry_id b)"
    by blast+
  from ready_pair_order[OF d r a b pr]
  show "\<exists>out. fst (get_sorted_tasks now include_completed m) = Inr out
            \<and> appears_before (entry_id a) (entry_id b) (map task_id out)"
    by (simp add: get_sorted_tasks_def Let_def)
next
  assume "manager_ok m2 \<and> mset (map snd (tasks m2)) = {#A, B#}
      \<and> urgency A = 5 \<and> urgency B = 9 \<and> deadline A = None \<and> deadline B = None
      \<and> \<not> completed A \<and> \<not> completed B \<and> created_at A \<le> now2 \<and> created_at B \<le> now2
      \<and> set (dependencies A) \<inter> {task_id A, task_id B} = {}
      \<and> set (dependencies B) \<inter> {task_id A, task_id B} = {}"
  then show "fst (get_sorted_tasks now2 False m2) = Inr [rescore now2 B, rescore now2 A]"
    using two_independent_tasks[of m2 A B now2] by blast
qed

theorem C3_ready_heap_order_witness:
  "manager_ok (example_manager [example_task 1 5 [] False, example_task 2 9 [] False])
   \<and> loop_reach
        (working_set 0 False (example_manager [example_task 1 5 [] False, example_task 2 9 [] False]))
        (expected_in_degree
          (working_set 0 False (example_manager [example_task 1 5 [] False, example_task 2 9 [] False])))
        [entry_of (rescore 0 (example_task 2 9 [] False)), entry_of (rescore 0 (example_task 1 5 [] False))]
        []
   \<and> priority_score (entry_task (entry_of (rescore 0 (example_task 1 5 [] False))))
        < priority_score (entry_task (entry_of (rescore 0 (example_task 2 9 [] False))))
   \<and> (\<exists>out. fst (get_sorted_tasks 0 False
                  (example_manager [example_task 1 5 [] False, example_task 2 9 [] False])) = Inr out
         \<and> appears_before (entry_id (entry_of (rescore 0 (example_task 2 9 [] False))))
              (entry_id (entry_of (rescore 0 (example_task 1 5 [] False)))) (map task_id out))
   \<and> mset (map snd (tasks (example_manager [example_task 1 5 [] False, example_task 2 9 [] False])))
        = {#example_task 1 5 [] False, example_task 2 9 [] False#}
   \<and> fst (get_sorted_tasks 0 False
            (example_manager [example_task 1 5 [] False, example_task 2 9 [] False]))
        = Inr [rescore 0 (example_task 2 9 [] False), rescore 0 (example_task 1 5 [] False)]"
proof -
  let ?A = "example_task 1 5 [] False" and ?B = "example_task 2 9 [] False"
  let ?m = "example_manager [?A, ?B]"
  let ?ts = "working_set 0 False ?m"
  let ?heap = "[entry_of (rescore 0 ?B), entry_of (rescore 0 ?A)]"
  have ok: "manager_ok ?m"
    by (simp add: manager_ok_def example_manager_def example_task_def)
  have ts: "?ts = [rescore 0 ?A, rescore 0 ?B]"
    by (simp add: working_set_def example_manager_def example_task_def in_working_set_def)
  have d: "distinct (map task_id ?ts)" by (rule distinct_working_set[OF ok])
  have c: "calc_in_degrees ?ts = Inr (expected_in_degree ?ts)"
    by (rule calc_in_degrees_result[OF d])
  have rt: "ready_tasks ?ts = [rescore 0 ?A, rescore 0 ?B]"
    unfolding ts
    by (simp add: ready_tasks_def expected_in_degree_def blocking_count_def example_task_def)
  have ih: "initial_heap ?ts (expected_in_degree ?ts) = Inr ?heap"
    using initial_heap_result[OF d, of "expected_in_degree ?ts"]
    by (simp add: dom_expected_in_degree ready_tasks_def[symmetric] rt)
  have reach: "loop_reach ?ts (expected_in_degree ?ts) ?heap []"
    by (rule loop_reach.start[OF c ih])
  have pr: "priority_score (entry_task (entry_of (rescore 0 ?A)))
            < priority_score (entry_task (entry_of (rescore 0 ?B)))"
    by (simp add: entry_task_def entry_of_def rescore_def calculate_priority_score_def
        example_task_def timedelta_days_def)
  have two: "mset (map snd (tasks ?m)) = {#?A, ?B#}"
    by (simp add: example_manager_def)
  note inst = C3_ready_heap_order[of "?m" 0 False "expected_in_degree ?ts" "?heap" "[]"
      "entry_of (rescore 0 ?B)" "entry_of (rescore 0 ?A)" "?m" "?A" "?B" 0]
  have c1: "\<exists>out. fst (get_sorted_tasks 0 False ?m) = Inr out
         \<and> appears_before (entry_id (entry_of (rescore 0 ?B)))
              (entry_id (entry_of (rescore 0 ?A))) (map task_id out)"
    using inst[THEN conjunct1] ok reach pr by simp
  have c2: "fst (get_sorted_tasks 0 False ?m) = Inr [rescore 0 ?B, rescore 0 ?A]"
    using inst[THEN conjunct2] ok two by (simp add: example_task_def)
  show ?thesis
    using ok reach pr c1 two c2 by (intro conjI)
qed

subsection \<open>Claim C4\<close>

text \<open>
  C4 as the specification states it fails: the batch is sorted by score only, with a stable
  sort, so tasks of equal score stay in the order of the task dict, whatever their ids.
  Here the dict holds task 2 before task 1 (as after loading a file that lists them so),
  the two depend on each other and have the same score: the result is task 2, task 1.
\<close>

theorem C4_fallback_tie_counterexample:
  "manager_ok (example_manager [example_task 2 5 [1] False, example_task 1 5 [2] False])
   \<and> priority_score (rescore 0 (example_task 2 5 [1] False))
       = priority_score (rescore 0 (example_task 1 5 [2] False))
   \<and> fst (get_sorted_tasks 0 False
            (example_manager [example_task 2 5 [1] False, example_task 1 5 [2] False]))
       = Inr [rescore 0 (example_task 2 5 [1] False), rescore 0 (example_task 1 5 [2] False)]
   \<and> \<not> sorted (map (\<lambda>t. (- priority_score t, task_id t))
                  [rescore 0 (example_task 2 5 [1] False), rescore 0 (example_task 1 5 [2] False)])"
  by (simp add: manager_ok_def example_manager_def example_task_def get_sorted_tasks_def
      working_set_def in_working_set_def rescore_def calculate_priority_score_def
      timedelta_days_def topological_sort_with_priority_def calc_in_degrees_def
      make_task_dict_def make_in_degree_def count_task_def count_dep_def initial_heap_def
      push_if_ready_def heappush_def entry_of_def entry_key_def main_loop.simps heappop_def
      release_def release_step_def Let_def)

text \<open>
  C4, amended. For every well-formed manager, \<^verbatim>\<open>get_sorted_tasks\<close> does not fail and
  returns what the main loop emitted followed by one batch: the tasks of the working set
  that the loop did not emit, sorted by descending score, tasks of equal score in the order
  they have in the task dict; when the dict is in ascending id order (as it is when every
  task was created by \<^verbatim>\<open>add_task\<close>), that is ascending id among equal scores. For two
  pending tasks that depend on each other, with urgencies 5 and 9, no deadlines and created
  no later than the clock reading, the result is the task of urgency 9, then the other.
\<close>

theorem C4_cycle_fallback:
  "(manager_ok m \<longrightarrow>
      (\<exists>in_degree heap emitted batch.
           calc_in_degrees (working_set now include_completed m) = Inr in_degree
         \<and> initial_heap (working_set now include_completed m) in_degree = Inr heap
         \<and> main_loop (working_set now include_completed m) in_degree heap [] = Inr emitted
         \<and> fst (get_sorted_tasks now include_completed m) = Inr (emitted @ batch)
         \<and> mset batch = mset (filter (\<lambda>t. t \<notin> set emitted) (working_set now include_completed m))
         \<and> sorted (map (\<lambda>t. - priority_score t) batch)
         \<and> (\<forall>k. filter (\<lambda>t. priority_score t = k) batch
                = filter (\<lambda>t. priority_score t = k)
                    (filter (\<lambda>t. t \<notin> set emitted) (working_set now include_completed m)))
         \<and> (sorted (map fst (tasks m))
              \<longrightarrow> sorted (map (\<lambda>t. (- priority_score t, task_id t)) batch))))
   \<and> (manager_ok m2 \<and> mset (map snd (tasks m2)) = {#A, B#}
      \<and> urgency A = 5 \<and> urgency B = 9 \<and> deadline A = None \<and> deadline B = None
      \<and> \<not> completed A \<and> \<not> completed B \<and> created_at A \<le> now2 \<and> created_at B \<le> now2
      \<and> task_id B \<in> set (dependencies A) \<and> task_id A \<in> set (dependencies B)
    \<longrightarrow> fst (get_sorted_tasks now2 False m2) = Inr [rescore now2 B, rescore now2 A])"
proof (intro conjI impI)
  assume ok: "manager_ok m"
  let ?ts = "working_set now include_completed m"
  have d: "distinct (map task_id ?ts)" by (rule distinct_working_set[OF ok])
  from fallback_batch[OF d] obtain in_degree heap emitted batch where
    f: "calc_in_degrees ?ts = Inr in_degree" "initial_heap ?ts in_degree = Inr heap"
      "main_loop ?ts in_degree heap [] = Inr emitted"
      "topological_sort_with_priority ?ts = Inr (emitted @ batch)"
      "mset batch = mset (filter (\<lambda>t. t \<notin> set emitted) ?ts)"
      "sorted (map (\<lambda>t. - priority_score t) batch)"
      "\<forall>k. filter (\<lambda>t. priority_score t = k) batch
                = filter (\<lambda>t. priority_score t = k) (filter (\<lambda>t. t \<notin> set emitted) ?ts)"
      "sorted (map task_id ?ts) \<longrightarrow> sorted (map (\<lambda>t. (- priority_score t, task_id t)) batch)"
    by blast
  have g: "fst (get_sorted_tasks now include_completed m) = Inr (emitted @ batch)"
    using f(4) by (simp add: get_sorted_tasks_def Let_def)
  have s: "sorted (map fst (tasks m)) \<longrightarrow> sorted (map (\<lambda>t. (- priority_score t, task_id t)) batch)"
    using f(8) sorted_ids_working_set[OF ok, of now include_completed] by blast
  show "\<exists>in_degree heap emitted batch.
           calc_in_degrees ?ts = Inr in_degree
         \<and> initial_heap ?ts in_degree = Inr heap
         \<and> main_loop ?ts in_degree heap [] = Inr emitted
         \<and> fst (get_sorted_tasks now include_completed m) = Inr (emitted @ batch)
         \<and> mset batch = mset (filter (\<lambda>t. t \<notin> set emitted) ?ts)
         \<and> sorted (map (\<lambda>t. - priority_score t) batch)
         \<and> (\<forall>k. filter (\<lambda>t. priority_score t = k) batch
                = filter (\<lambda>t. priority_score t = k) (filter (\<lambda>t. t \<notin> set emitted) ?ts))
         \<and> (sorted (map fst (tasks m))
              \<longrightarrow> sorted (map (\<lambda>t. (- priority_score t, task_id t)) batch))"
    using f(1,2,3) g f(5,6,7) s by blast
next
  assume "manager_ok m2 \<and> mset (map snd (tasks m2)) = {#A, B#}
      \<and> urgency A = 5 \<and> urgency B = 9 \<and> deadline A = None \<and> deadline B = None
      \<and> \<not> completed A \<and> \<not> completed B \<and> created_at A \<le> now2 \<and> created_at B \<le> now2
      \<and> task_id B \<in> set (dependencies A) \<and> task_id A \<in> set (dependencies B)"
  then show "fst (get_sorted_tasks now2 False m2) = Inr [rescore now2 B, rescore now2 A]"
    using two_dependent_tasks[of m2 A B now2] by blast
qed

theorem C4_cycle_fallback_witness:
  "manager_ok (example_manager [example_task 1 5 [2] False, example_task 2 9 [1] False])
   \<and> sorted (map fst (tasks (example_manager [example_task 1 5 [2] False, example_task 2 9 [1] False])))
   \<and> (\<exists>in_degree heap emitted batch.
         calc_in_degrees (working_set 0 False
             (example_manager [example_task 1 5 [2] False, example_task 2 9 [1] False])) = Inr in_degree
       \<and> initial_heap (working_set 0 False
             (example_manager [example_task 1 5 [2] False, example_task 2 9 [1] False])) in_degree = Inr heap
       \<and> main_loop (working_set 0 False
             (example_manager [example_task 1 5 [2] False, example_task 2 9 [1] False])) in_degree heap []
           = Inr emitted
       \<and> fst (get_sorted_tasks 0 False
             (example_manager [example_task 1 5 [2] False, example_task 2 9 [1] False]))
           = Inr (emitted @ batch)
       \<and> sorted (map (\<lambda>t. - priority_score t) batch)
       \<and> sorted (map (\<lambda>t. (- priority_score t, task_id t)) batch))
   \<and> mset (map snd (tasks (example_manager [example_task 1 5 [2] False, example_task 2 9 [1] False])))
       = {#example_task 1 5 [2] False, example_task 2 9 [1] False#}
   \<and> fst (get_sorted_tasks 0 False
            (example_manager [example_task 1 5 [2] False, example_task 2 9 [1] False]))
       = Inr [rescore 0 (example_task 2 9 [1] False), rescore 0 (example_task 1 5 [2] False)]"
proof -
  let ?A = "example_task 1 5 [2] False" and ?B = "example_task 2 9 [1] False"
  let ?m = "example_manager [?A, ?B]"
  have ok: "manager_ok ?m"
    by (simp add: manager_ok_def example_manager_def example_task_def)
  have so: "sorted (map fst (tasks ?m))"
    by (simp add: example_manager_def example_task_def)
  have two: "mset (map snd (tasks ?m)) = {#?A, ?B#}"
    by (simp add: example_manager_def)
  note inst = C4_cycle_fallback[of "?m" 0 False "?m" "?A" "?B" 0]
  have c1: "\<exists>in_degree heap emitted batch.
         calc_in_degrees (working_set 0 False ?m) = Inr in_degree
       \<and> initial_heap (working_set 0 False ?m) in_degree = Inr heap
       \<and> main_loop (working_set 0 False ?m) in_degree heap [] = Inr emitted
       \<and> fst (get_sorted_tasks 0 False ?m) = Inr (emitted @ batch)
       \<and> sorted (map (\<lambda>t. - priority_score t) batch)
       \<and> sorted (map (\<lambda>t. (- priority_score t, task_id t)) batch)"
    using inst[THEN conjunct1] ok so by blast
  have c2: "fst (get_sorted_tasks 0 False ?m) = Inr [rescore 0 ?B, rescore 0 ?A]"
    using inst[THEN conjunct2] ok two by (simp add: example_task_def)
  show ?thesis
    using ok so c1 two c2 by (intro conjI)
qed

subsection \<open>Claim C5\<close>

text \<open>
  C5. For every task and every clock reading, \<^verbatim>\<open>calculate_priority_score\<close> returns
  base + deadline term + age term as the specification defines them, and stores that value
  in \<^verbatim>\<open>priority_score\<close>, leaving every other field as it was.
\<close>

theorem C5_score_formula:
  "calculate_priority_score now t =
     (spec_priority_score now t, t\<lparr>priority_score := spec_priority_score now t\<rparr>)"
proof -
  have dl: "(case deadline t of
               None \<Rightarrow> 0
             | Some dl \<Rightarrow>
                 (let days_until_deadline = timedelta_days (dl - now) in
                  if days_until_deadline < 0 then 200
                  else if days_until_deadline = 0 then 100
                  else if days_until_deadline \<le> 3 then 80 - days_until_deadline * 20
                  else if days_until_deadline \<le> 7 then 40 - days_until_deadline * 5
                  else max 0 (20 - days_until_deadline))) = spec_deadline_term now t"
    by (cases "deadline t") (auto simp: spec_deadline_term_def timedelta_days_def Let_def)
  have age: "min 20 (timedelta_days (now - created_at t) * 2) = spec_age_term now t"
    by (simp add: spec_age_term_def timedelta_days_def mult.commute)
  show ?thesis
    using dl age
    by (simp add: calculate_priority_score_def Let_def spec_priority_score_def spec_base_def)
qed

subsection \<open>Claim C6\<close>

text \<open>
  C6. In \<^verbatim>\<open>get_sorted_tasks\<close>, a task of the working set all of whose dependency entries
  name no stored task or a completed one (which covers every task outside the working
  set) gets in-degree zero and is pushed on the initial ready heap. The witness is the
  scenario of a task whose only dependency is the unknown id 999.
\<close>

theorem C6_dangling_dependencies_do_not_block:
  assumes "manager_ok m"
    and "t \<in> set (working_set now include_completed m)"
    and "\<forall>d \<in> set (dependencies t). non_blocking_dep m d"
  shows "\<exists>in_degree heap.
           calc_in_degrees (working_set now include_completed m) = Inr in_degree
         \<and> in_degree (task_id t) = Some 0
         \<and> initial_heap (working_set now include_completed m) in_degree = Inr heap
         \<and> entry_of t \<in> set heap"
proof (rule ready_when_no_blocking[OF distinct_working_set[OF assms(1)] assms(2)])
  show "\<forall>d\<in>set (dependencies t). \<not> blocking (working_set now include_completed m) d"
  proof
    fix d assume "d \<in> set (dependencies t)"
    with assms(3) have nb: "non_blocking_dep m d" by blast
    show "\<not> blocking (working_set now include_completed m) d"
    proof
      assume "blocking (working_set now include_completed m) d"
      from blocking_working_set[OF assms(1) this] nb show False
        by (auto simp: non_blocking_dep_def)
    qed
  qed
qed

theorem C6_dangling_dependencies_do_not_block_witness:
  "manager_ok (example_manager [example_task 3 5 [999] False])
   \<and> rescore 0 (example_task 3 5 [999] False)
        \<in> set (working_set 0 False (example_manager [example_task 3 5 [999] False]))
   \<and> list_all (non_blocking_dep (example_manager [example_task 3 5 [999] False]))
        (dependencies (rescore 0 (example_task 3 5 [999] False)))
   \<and> (\<exists>in_degree heap.
         calc_in_degrees (working_set 0 False (example_manager [example_task 3 5 [999] False]))
           = Inr in_degree
       \<and> in_degree (task_id (rescore 0 (example_task 3 5 [999] False))) = Some 0
       \<and> initial_heap (working_set 0 False (example_manager [example_task 3 5 [999] False]))
           in_degree = Inr heap
       \<and> entry_of (rescore 0 (example_task 3 5 [999] False)) \<in> set heap)"
proof -
  let ?m = "example_manager [example_task 3 5 [999] False]"
  let ?t = "rescore 0 (example_task 3 5 [999] False)"
  have ok: "manager_ok ?m"
    by (simp add: manager_ok_def example_manager_def example_task_def)
  have mem: "?t \<in> set (working_set 0 False ?m)"
    by (simp add: working_set_def example_manager_def example_task_def in_working_set_def)
  have deps: "dependencies ?t = [999]" by (simp add: example_task_def)
  have nb: "\<forall>d \<in> set (dependencies ?t). non_blocking_dep ?m d"
    unfolding deps by (simp add: non_blocking_dep_def example_manager_def example_task_def)
  then have nb': "list_all (non_blocking_dep ?m) (dependencies ?t)"
    by (simp add: list_all_iff)
  show ?thesis
    using ok mem nb' C6_dangling_dependencies_do_not_block[OF ok mem nb] by blast
qed

subsection \<open>Claim C7\<close>

text \<open>
  C7 holds for unknown ids (\<open>delete_task_unknown\<close>) and whenever no dependency list holds
  an id twice (\<open>delete_task_strips_when_distinct\<close>), but not in general:
  \<^verbatim>\<open>task.dependencies.remove(task_id)\<close> takes out the first occurrence only. Task 2 lists
  task 1 twice (the input form accepts "1, 1"); after deleting task 1, task 2 still lists
  it.
\<close>

theorem C7_delete_leaves_second_occurrence:
  "delete_task 0 1 (example_manager [example_task 1 5 [] False, example_task 2 5 [1, 1] False])
     = (True, \<lparr>tasks = [(2, rescore 0 (example_task 2 5 [1] False))], next_id = 3\<rparr>)
   \<and> 1 \<in> set (dependencies (rescore 0 (example_task 2 5 [1] False)))"
  by (simp add: delete_task_def example_manager_def example_task_def Let_def
      strip_dependency_def update_priorities_def rescore_def calculate_priority_score_def
      timedelta_days_def)

subsection \<open>Claim C8\<close>

text \<open>
  C8 as the specification states it fails on the scores: \<^verbatim>\<open>load_from_json\<close> ends with
  \<^verbatim>\<open>_update_priorities()\<close>, so the persisted \<^verbatim>\<open>priority_score\<close> is replaced by the score
  for the clock reading at load time. A task of urgency 5 added at instant 0 has score 50;
  saved and loaded ten days later it has score 70.
\<close>

theorem C8_scores_recomputed_counterexample:
  "map (\<lambda>p. priority_score (snd p))
       (tasks (snd (add_task 0 ''report'' [] None 5 None init_manager))) = [50]
   \<and> map (\<lambda>p. priority_score (snd p))
       (tasks (snd (load_from_json example_isoformat example_fromisoformat 864000000000
          (Object (save_to_json example_isoformat
                     (snd (add_task 0 ''report'' [] None 5 None init_manager))))
          (snd (add_task 0 ''report'' [] None 5 None init_manager))))) = [70]"
  by (simp add: add_task_def init_manager_def new_task_def Let_def update_priorities_def
      rescore_def calculate_priority_score_def timedelta_days_def load_from_json_def
      save_to_json_def to_dict_def from_dict_def example_isoformat_def
      example_fromisoformat_def)

text \<open>
  C8, amended. For every well-formed manager whose timestamps survive
  \<^verbatim>\<open>isoformat\<close>/\<^verbatim>\<open>fromisoformat\<close>, loading what \<^verbatim>\<open>save_to_json\<close> wrote succeeds and
  yields the saved manager with its scores recomputed for the clock reading of the load:
  the same tasks under the same keys in the same order, equal in id, title, description,
  deadline, urgency, dependencies, completed flag and creation time, and \<^verbatim>\<open>next_id\<close> as
  persisted, whatever the manager held before and whatever the highest id is.
\<close>

theorem C8_round_trip:
  assumes "manager_ok m" and "codec_ok isoformat fromisoformat m"
  shows "load_from_json isoformat fromisoformat now (Object (save_to_json isoformat m)) m0
           = (True, update_priorities now m)
       \<and> next_id (update_priorities now m) = next_id m
       \<and> map fst (tasks (update_priorities now m)) = map fst (tasks m)
       \<and> map (\<lambda>p. forget_score (snd p)) (tasks (update_priorities now m))
           = map (\<lambda>p. forget_score (snd p)) (tasks m)
       \<and> map (\<lambda>p. priority_score (snd p)) (tasks (update_priorities now m))
           = map (\<lambda>p. fst (calculate_priority_score now (snd p))) (tasks m)"
proof -
  have "map (\<lambda>p. forget_score (snd p)) (tasks (update_priorities now m))
           = map (\<lambda>p. forget_score (snd p)) (tasks m)"
    by (simp add: update_priorities_def map_ran_def case_prod_beta comp_def)
  moreover have "map (\<lambda>p. priority_score (snd p)) (tasks (update_priorities now m))
           = map (\<lambda>p. fst (calculate_priority_score now (snd p))) (tasks m)"
    by (simp add: update_priorities_def map_ran_def case_prod_beta comp_def priority_score_rescore)
  ultimately show ?thesis
    using load_saved[OF assms, of now m0] by simp
qed

theorem C8_round_trip_witness:
  "manager_ok \<lparr>tasks = [(3, example_task 3 5 [1] False)], next_id = 9\<rparr>
   \<and> codec_ok example_isoformat example_fromisoformat
        \<lparr>tasks = [(3, example_task 3 5 [1] False)], next_id = 9\<rparr>
   \<and> load_from_json example_isoformat example_fromisoformat 86400000000
        (Object (save_to_json example_isoformat \<lparr>tasks = [(3, example_task 3 5 [1] False)], next_id = 9\<rparr>))
        init_manager
      = (True, update_priorities 86400000000 \<lparr>tasks = [(3, example_task 3 5 [1] False)], next_id = 9\<rparr>)
   \<and> next_id (update_priorities 86400000000 \<lparr>tasks = [(3, example_task 3 5 [1] False)], next_id = 9\<rparr>) = 9"
proof -
  let ?m = "\<lparr>tasks = [(3, example_task 3 5 [1] False)], next_id = 9\<rparr>"
  have ok: "manager_ok ?m" by (simp add: manager_ok_def example_task_def)
  have codec: "codec_ok example_isoformat example_fromisoformat ?m"
    by (simp add: codec_ok_def task_roundtrips_def roundtrips_def example_task_def
        example_isoformat_def example_fromisoformat_def)
  show ?thesis
    using ok codec C8_round_trip[OF ok codec, of 86400000000 init_manager] by simp
qed

subsection \<open>Claim C9\<close>




subsection \<open>Claim C10\<close>

text \<open>
  C10. \<^verbatim>\<open>edit_task\<close> reads \<^verbatim>\<open>None\<close> as "not supplied" for every optional parameter:
  after any call, every stored task is still stored under its key, a deadline that was set
  is still set, and title, description, deadline, urgency and dependencies of the edited
  task are the supplied values where one was supplied and the old values otherwise; no
  field of any other task changes, nor do id, completed flag, creation time, the keys or
  \<^verbatim>\<open>next_id\<close>. (The score, a derived value, is recomputed for every task.)
\<close>

theorem C10_edit_cannot_clear:
  assumes "map_of (tasks m) k = Some t"
  shows "\<exists>t'. map_of (tasks (snd (edit_task now tid ttl descr dl urg deps m))) k = Some t'
     \<and> (deadline t \<noteq> None \<longrightarrow> deadline t' \<noteq> None)
     \<and> title t' = (case ttl of None \<Rightarrow> title t | Some v \<Rightarrow> if k = tid then v else title t)
     \<and> description t' = (case descr of None \<Rightarrow> description t | Some v \<Rightarrow> if k = tid then v else description t)
     \<and> deadline t' = (case dl of None \<Rightarrow> deadline t | Some v \<Rightarrow> if k = tid then Some v else deadline t)
     \<and> urgency t' = (case urg of None \<Rightarrow> urgency t | Some v \<Rightarrow> if k = tid then v else urgency t)
     \<and> dependencies t' = (case deps of None \<Rightarrow> dependencies t | Some v \<Rightarrow> if k = tid then v else dependencies t)
     \<and> task_id t' = task_id t \<and> completed t' = completed t \<and> created_at t' = created_at t
     \<and> map fst (tasks (snd (edit_task now tid ttl descr dl urg deps m))) = map fst (tasks m)
     \<and> next_id (snd (edit_task now tid ttl descr dl urg deps m)) = next_id m"
proof (cases "tid \<in> fst ` set (tasks m)")
  case False
  from assms have "k \<in> fst ` set (tasks m)" by (metis map_of_eq_None_iff option.distinct(1))
  with False have "k \<noteq> tid" by blast
  then show ?thesis
    using assms by (simp add: edit_task_unknown[OF False] split: option.splits)
next
  case True
  let ?t' = "rescore now (if k = tid then apply_edit ttl descr dl urg deps t else t)"
  have "map_of (tasks (snd (edit_task now tid ttl descr dl urg deps m))) k = Some ?t'"
    using edit_task_lookup(2)[OF True, of now ttl descr dl urg deps k] assms by simp
  moreover have "deadline t \<noteq> None \<longrightarrow> deadline ?t' \<noteq> None"
    by (simp add: apply_edit_fields split: option.splits)
  moreover have "title ?t' = (case ttl of None \<Rightarrow> title t | Some v \<Rightarrow> if k = tid then v else title t)"
    "description ?t' = (case descr of None \<Rightarrow> description t | Some v \<Rightarrow> if k = tid then v else description t)"
    "deadline ?t' = (case dl of None \<Rightarrow> deadline t | Some v \<Rightarrow> if k = tid then Some v else deadline t)"
    "urgency ?t' = (case urg of None \<Rightarrow> urgency t | Some v \<Rightarrow> if k = tid then v else urgency t)"
    "dependencies ?t' = (case deps of None \<Rightarrow> dependencies t | Some v \<Rightarrow> if k = tid then v else dependencies t)"
    "task_id ?t' = task_id t" "completed ?t' = completed t" "created_at ?t' = created_at t"
    by (simp_all add: apply_edit_fields split: option.splits)
  ultimately show ?thesis
    using edit_task_lookup(3,4)[OF True, of now ttl descr dl urg deps] by blast
qed

theorem C10_edit_cannot_clear_witness:
  "map_of (tasks (example_manager [(example_task 1 5 [] False)\<lparr>deadline := Some 7\<rparr>])) 1
     = Some ((example_task 1 5 [] False)\<lparr>deadline := Some 7\<rparr>)
   \<and> deadline ((example_task 1 5 [] False)\<lparr>deadline := Some 7\<rparr>) \<noteq> None
   \<and> (\<exists>t'. map_of (tasks (snd (edit_task 0 1 (Some ''new title'') None None None None
            (example_manager [(example_task 1 5 [] False)\<lparr>deadline := Some 7\<rparr>])))) 1 = Some t'
         \<and> deadline t' = Some 7 \<and> title t' = ''new title'' \<and> urgency t' = 5)"
proof -
  let ?t = "(example_task 1 5 [] False)\<lparr>deadline := Some 7\<rparr>"
  let ?m = "example_manager [?t]"
  have l: "map_of (tasks ?m) 1 = Some ?t"
    by (simp add: example_manager_def example_task_def)
  have d: "deadline ?t \<noteq> None" by simp
  from C10_edit_cannot_clear[OF l, of 0 1 "Some ''new title''" None None None None]
  obtain t' where "map_of (tasks (snd (edit_task 0 1 (Some ''new title'') None None None None ?m))) 1
      = Some t'" "deadline t' = deadline ?t" "title t' = ''new title''" "urgency t' = urgency ?t"
    by auto
  then have "\<exists>t'. map_of (tasks (snd (edit_task 0 1 (Some ''new title'') None None None None ?m))) 1
      = Some t' \<and> deadline t' = Some 7 \<and> title t' = ''new title'' \<and> urgency t' = 5"
    by (auto simp: example_task_def)
  with l d show ?thesis by (intro conjI)
qed

end
